theory Spec2Isabelle
  imports Complex_Main "HOL-Library.Char_ord" "HOL-Library.List_Lexorder"
begin

section \<open>Python values used by the environment\<close>

text \<open>
  The model follows \<^verbatim>\<open>src/wordle_env.py\<close> (class \<^verbatim>\<open>WordleEnv\<close>).
  A Python \<^verbatim>\<open>str\<close> is a \<open>string\<close> whose characters are code points below 256;
  Python integers are \<open>int\<close>; the float rewards \<^verbatim>\<open>1.0\<close>, \<^verbatim>\<open>-1.0\<close>, \<^verbatim>\<open>-0.1\<close> are
  the \<open>real\<close> constants of the same name. Every exception the code can raise is a value
  of \<open>error\<close>, and an operation that mutates \<^verbatim>\<open>self\<close> returns the state it leaves behind,
  also when it raises.
\<close>

datatype error = ValueError | IndexError | OverflowError

text \<open>
  Indexing of a Python list, a \<^verbatim>\<open>str\<close> or a one-dimensional numpy array of length \<open>n\<close>:
  an index in \<open>[0, n)\<close> is taken as it is, one in \<open>[-n, 0)\<close> counts from the end,
  anything else raises \<^verbatim>\<open>IndexError\<close>.
\<close>

definition py_pos :: "nat \<Rightarrow> int \<Rightarrow> error + nat" where
  "py_pos n i =
     (if 0 \<le> i \<and> i < int n then Inr (nat i)
      else if - int n \<le> i \<and> i < 0 then Inr (nat (int n + i))
      else Inl IndexError)"

definition py_index :: "'a list \<Rightarrow> int \<Rightarrow> error + 'a" where
  "py_index xs i = (case py_pos (length xs) i of Inl e \<Rightarrow> Inl e | Inr k \<Rightarrow> Inr (xs ! k))"

definition py_store :: "'a list \<Rightarrow> int \<Rightarrow> 'a \<Rightarrow> error + 'a list" where
  "py_store xs i v = (case py_pos (length xs) i of Inl e \<Rightarrow> Inl e | Inr k \<Rightarrow> Inr (xs[k := v]))"

text \<open>
  \<^verbatim>\<open>str.lower\<close> on code points below 256: the ASCII capitals and the Latin-1 capitals
  (\<open>0xC0\<close> to \<open>0xDE\<close> without the multiplication sign \<open>0xD7\<close>) move up by 32.
\<close>

definition lower_char :: "char \<Rightarrow> char" where
  "lower_char c =
     (let n = (of_char c :: nat)
      in if (65 \<le> n \<and> n \<le> 90) \<or> (192 \<le> n \<and> n \<le> 222 \<and> n \<noteq> 215)
         then char_of (n + 32) else c)"

definition lower :: "string \<Rightarrow> string" where
  "lower w = map lower_char w"

section \<open>The environment\<close>

text \<open>The feedback values, class attributes of \<^verbatim>\<open>WordleEnv\<close>.\<close>

definition EMPTY :: int where "EMPTY = 0"
definition GRAY :: int where "GRAY = 1"
definition YELLOW :: int where "YELLOW = 2"
definition GREEN :: int where "GREEN = 3"

text \<open>
  The fields of a \<^verbatim>\<open>WordleEnv\<close> that \<^verbatim>\<open>reset\<close> and \<^verbatim>\<open>step\<close> read or write.
  \<^verbatim>\<open>num_words\<close> is \<open>length (word_list s)\<close>. \<^verbatim>\<open>word_length\<close> is a \<open>nat\<close>: construction
  fails for a negative length, since no word has it. \<^verbatim>\<open>render_mode\<close> is \<^verbatim>\<open>None\<close>
  (\<^verbatim>\<open>_render_frame\<close> only prints).
\<close>

record env =
  word_length :: nat
  max_guesses :: int
  word_list :: "string list"
  secret_word :: string
  current_guess_count :: int
  last_feedback :: "int list"
  alphabet_status :: "int list"
  guess_history :: "string list"
  feedback_history :: "int list list"

definition num_words :: "env \<Rightarrow> nat" where
  "num_words s = length (word_list s)"

record observation =
  obs_last_feedback :: "int list"
  obs_alphabet_status :: "int list"
  guesses_remaining :: int

record info =
  info_secret_word :: string
  guesses_made :: int
  info_guess_history :: "string list"

definition letter_to_int :: "char \<Rightarrow> int" where
  "letter_to_int letter = int (of_char letter) - int (of_char CHR ''a'')"

definition get_obs :: "env \<Rightarrow> observation" where
  "get_obs s =
     \<lparr>obs_last_feedback = last_feedback s,
      obs_alphabet_status = alphabet_status s,
      guesses_remaining = max_guesses s - current_guess_count s\<rparr>"

definition get_info :: "env \<Rightarrow> info" where
  "get_info s =
     \<lparr>info_secret_word = secret_word s,
      guesses_made = current_guess_count s,
      info_guess_history = guess_history s\<rparr>"

text \<open>
  \<^verbatim>\<open>__init__\<close>. The word list is \<^verbatim>\<open>sorted(list(set([w.lower() for w in custom_words
  if len(w) == word_length])))\<close>. \<^verbatim>\<open>spaces.Discrete(max_guesses + 1)\<close> belongs to the
  gymnasium library: it raises \<^verbatim>\<open>ValueError\<close> for a size that is not positive and
  \<^verbatim>\<open>OverflowError\<close> for a size that does not fit a signed 64-bit integer.
\<close>

definition init :: "string list \<Rightarrow> int \<Rightarrow> int \<Rightarrow> error + env" where
  "init custom_words wl mg =
     (if custom_words = [] then Inl ValueError
      else
        let wlist = sort (remdups (map lower (filter (\<lambda>w. int (length w) = wl) custom_words)))
        in if wlist = [] then Inl ValueError
           else if mg + 1 \<le> 0 then Inl ValueError
           else if 2 ^ 63 \<le> mg + 1 then Inl OverflowError
           else Inr \<lparr>word_length = nat wl, max_guesses = mg, word_list = wlist,
                     secret_word = [], current_guess_count = 0,
                     last_feedback = replicate (nat wl) 0,
                     alphabet_status = replicate 26 0,
                     guess_history = [], feedback_history = []\<rparr>)"

text \<open>
  \<^verbatim>\<open>reset\<close>. The word drawn by \<^verbatim>\<open>self.np_random.choice(self.word_list)\<close> is the
  argument \<open>w\<close>: the draw is the only nondeterminism of the environment, and it yields a
  member of \<open>word_list\<close>.
\<close>

definition reset :: "env \<Rightarrow> string \<Rightarrow> (observation \<times> info) \<times> env" where
  "reset s w =
     (let s' = s\<lparr>secret_word := w, current_guess_count := 0,
                 last_feedback := replicate (word_length s) 0,
                 alphabet_status := replicate 26 0,
                 guess_history := [], feedback_history := []\<rparr>
      in ((get_obs s', get_info s'), s'))"

text \<open>
  The first loop of \<^verbatim>\<open>step\<close> (greens), over the positions still to visit. The locals
  \<open>fb\<close> (\<^verbatim>\<open>feedback\<close>) and \<open>cnt\<close> (\<^verbatim>\<open>secret_counts\<close>, a \<^verbatim>\<open>Counter\<close>: a missing key
  counts 0) are returned when the loop ends; \<open>al\<close> is \<^verbatim>\<open>self.alphabet_status\<close>, which
  is written in place and therefore returned as it stands when an index raises.
  \<^verbatim>\<open>feedback[i]\<close> is in range: the array has \<open>word_length\<close> cells and \<open>i\<close> is below it.
\<close>

fun pass_greens ::
  "string \<Rightarrow> string \<Rightarrow> nat list \<Rightarrow> int list \<Rightarrow> (char \<Rightarrow> int) \<Rightarrow> int list
     \<Rightarrow> (error + int list \<times> (char \<Rightarrow> int)) \<times> int list" where
  "pass_greens guess_word secret [] fb cnt al = (Inr (fb, cnt), al)"
| "pass_greens guess_word secret (i # is) fb cnt al =
     (case py_index guess_word (int i) of
        Inl e \<Rightarrow> (Inl e, al)
      | Inr gc \<Rightarrow>
          (case py_index secret (int i) of
             Inl e \<Rightarrow> (Inl e, al)
           | Inr sc \<Rightarrow>
               if gc = sc then
                 (case py_store al (letter_to_int gc) GREEN of
                    Inl e \<Rightarrow> (Inl e, al)
                  | Inr al' \<Rightarrow>
                      pass_greens guess_word secret is
                        (fb[i := GREEN]) (cnt(gc := cnt gc - 1)) al')
               else pass_greens guess_word secret is fb cnt al))"

text \<open>The second loop of \<^verbatim>\<open>step\<close> (yellows and grays).\<close>

fun pass_yellows ::
  "string \<Rightarrow> string \<Rightarrow> nat list \<Rightarrow> int list \<Rightarrow> (char \<Rightarrow> int) \<Rightarrow> int list
     \<Rightarrow> (error + int list \<times> (char \<Rightarrow> int)) \<times> int list" where
  "pass_yellows guess_word secret [] fb cnt al = (Inr (fb, cnt), al)"
| "pass_yellows guess_word secret (i # is) fb cnt al =
     (if fb ! i = GREEN then pass_yellows guess_word secret is fb cnt al
      else
        (case py_index guess_word (int i) of
           Inl e \<Rightarrow> (Inl e, al)
         | Inr letter \<Rightarrow>
             let lti = letter_to_int letter in
             if letter \<in> set secret \<and> cnt letter > 0 then
               (case py_index al lti of
                  Inl e \<Rightarrow> (Inl e, al)
                | Inr st \<Rightarrow>
                    if st \<noteq> GREEN then
                      (case py_store al lti YELLOW of
                         Inl e \<Rightarrow> (Inl e, al)
                       | Inr al' \<Rightarrow>
                           pass_yellows guess_word secret is
                             (fb[i := YELLOW]) (cnt(letter := cnt letter - 1)) al')
                    else
                      pass_yellows guess_word secret is
                        (fb[i := YELLOW]) (cnt(letter := cnt letter - 1)) al)
             else
               (case py_index al lti of
                  Inl e \<Rightarrow> (Inl e, al)
                | Inr st \<Rightarrow>
                    if st = EMPTY then
                      (case py_store al lti GRAY of
                         Inl e \<Rightarrow> (Inl e, al)
                       | Inr al' \<Rightarrow> pass_yellows guess_word secret is fb cnt al')
                    else pass_yellows guess_word secret is fb cnt al)))"

text \<open>
  \<^verbatim>\<open>step\<close>: the outcome (the exception raised, or the tuple returned: observation,
  reward, terminated, truncated, info) and the state the call leaves.
\<close>

definition step ::
  "env \<Rightarrow> int \<Rightarrow> (error + observation \<times> real \<times> bool \<times> bool \<times> info) \<times> env" where
  "step s action =
     (if current_guess_count s \<ge> max_guesses s
      then (Inr (get_obs s, 0, True, False, get_info s), s)
      else
        (case py_index (word_list s) action of
           Inl e \<Rightarrow> (Inl e, s)
         | Inr guess_word \<Rightarrow>
             let s1 = s\<lparr>current_guess_count := current_guess_count s + 1\<rparr>;
                 feedback = replicate (word_length s1) GRAY;
                 secret_counts = (\<lambda>c. int (count_list (secret_word s1) c))
             in
               (case pass_greens guess_word (secret_word s1) [0..<word_length s1]
                       feedback secret_counts (alphabet_status s1) of
                  (Inl e, al) \<Rightarrow> (Inl e, s1\<lparr>alphabet_status := al\<rparr>)
                | (Inr (fb1, cnt1), al1) \<Rightarrow>
                    (case pass_yellows guess_word (secret_word s1) [0..<word_length s1]
                            fb1 cnt1 al1 of
                       (Inl e, al) \<Rightarrow> (Inl e, s1\<lparr>alphabet_status := al\<rparr>)
                     | (Inr (fb2, cnt2), al2) \<Rightarrow>
                         let s2 = s1\<lparr>alphabet_status := al2, last_feedback := fb2,
                                     guess_history := guess_history s1 @ [guess_word],
                                     feedback_history := feedback_history s1 @ [fb2]\<rparr>;
                             terminated =
                               (guess_word = secret_word s2
                                \<or> current_guess_count s2 = max_guesses s2);
                             reward =
                               (if guess_word = secret_word s2 then 1.0
                                else if current_guess_count s2 = max_guesses s2 then - 1.0
                                else - 0.1)
                         in (Inr (get_obs s2, reward, terminated, False, get_info s2), s2)))))"

text \<open>A sequence of calls on one environment, in order.\<close>

datatype call = Reset string | Step int

fun exec :: "env \<Rightarrow> call list \<Rightarrow> env" where
  "exec s [] = s"
| "exec s (Reset w # cs) = exec (snd (reset s w)) cs"
| "exec s (Step a # cs) = exec (snd (step s a)) cs"

section \<open>Notions used by the statements\<close>

subsection \<open>Promotion of alphabet cells, bounds of the count\<close>

text \<open>
  One alphabet cell may move from \<open>old\<close> to \<open>new\<close>: it keeps its value, becomes
  \<open>GREEN\<close>, becomes \<open>YELLOW\<close> unless it was \<open>GREEN\<close>, or becomes \<open>GRAY\<close> from
  \<open>EMPTY\<close> (the value the source uses for an unused letter).
\<close>

definition promoted :: "int \<Rightarrow> int \<Rightarrow> bool" where
  "promoted old new \<longleftrightarrow>
     new = old \<or> new = GREEN \<or> (new = YELLOW \<and> old \<noteq> GREEN) \<or> (new = GRAY \<and> old = EMPTY)"

definition statuses_promoted :: "int list \<Rightarrow> int list \<Rightarrow> bool" where
  "statuses_promoted al al' \<longleftrightarrow>
     length al' = length al \<and> (\<forall>j<length al. promoted (al ! j) (al' ! j))"

text \<open>The ordering UNUSED < GRAY/YELLOW < GREEN as a rank.\<close>

definition status_rank :: "int \<Rightarrow> nat" where
  "status_rank v = (if v = GREEN then 2 else if v = YELLOW \<or> v = GRAY then 1 else 0)"

text \<open>The guess count lies between 0 and \<open>max_guesses\<close>.\<close>

definition count_in_bounds :: "env \<Rightarrow> bool" where
  "count_in_bounds s \<longleftrightarrow> 0 \<le> current_guess_count s \<and> current_guess_count s \<le> max_guesses s"

subsection \<open>Lowercasing\<close>

text \<open>
  \<open>v\<close> is \<open>w\<close> lowercased: the two have the same length and, position by position,
  the code point of a capital (65 to 90, that is \<^verbatim>\<open>A\<close> to \<^verbatim>\<open>Z\<close>, and the Latin-1
  capitals 192 to 222 other than 215) is raised by 32 and every other code point is kept.
\<close>

definition lowercase_of :: "string \<Rightarrow> string \<Rightarrow> bool" where
  "lowercase_of w v \<longleftrightarrow>
     list_all2
       (\<lambda>c d. (of_char d :: nat) =
          (if (65 \<le> (of_char c :: nat) \<and> (of_char c :: nat) \<le> 90)
              \<or> (192 \<le> (of_char c :: nat) \<and> (of_char c :: nat) \<le> 222
                  \<and> (of_char c :: nat) \<noteq> 215)
           then of_char c + 32 else of_char c))
       w v"

subsection \<open>The two-pass scoring\<close>

text \<open>
  The two-pass scoring as the specification words it, on the guess and the secret as
  lists. Pass 1: the positions where guess and secret agree are the greens, and each
  takes one from the remaining count of its letter.
\<close>

fun green_marks :: "string \<Rightarrow> string \<Rightarrow> bool list" where
  "green_marks (g # gs) (x # xs) = (g = x) # green_marks gs xs"
| "green_marks _ _ = []"

fun counts_after_greens :: "string \<Rightarrow> string \<Rightarrow> (char \<Rightarrow> int) \<Rightarrow> (char \<Rightarrow> int)" where
  "counts_after_greens (g # gs) (x # xs) cnt =
     counts_after_greens gs xs (if g = x then cnt(g := cnt g - 1) else cnt)"
| "counts_after_greens _ _ cnt = cnt"

text \<open>
  Pass 2, left to right over the positions that are not green: yellow and one off the
  remaining count when that count is positive, gray otherwise.
\<close>

fun yellow_gray :: "string \<Rightarrow> bool list \<Rightarrow> (char \<Rightarrow> int) \<Rightarrow> int list" where
  "yellow_gray (g # gs) (m # ms) cnt =
     (if m then GREEN # yellow_gray gs ms cnt
      else if 0 < cnt g then YELLOW # yellow_gray gs ms (cnt(g := cnt g - 1))
      else GRAY # yellow_gray gs ms cnt)"
| "yellow_gray _ _ _ = []"

definition two_pass_score :: "string \<Rightarrow> string \<Rightarrow> int list" where
  "two_pass_score guess secret =
     yellow_gray guess (green_marks guess secret)
       (counts_after_greens guess secret (\<lambda>c. int (count_list secret c)))"

subsection \<open>States of an episode\<close>

text \<open>
  A letter whose \<^verbatim>\<open>_letter_to_int\<close> value indexes the 26 cells of \<^verbatim>\<open>alphabet_status\<close>
  (the letters \<^verbatim>\<open>a\<close> to \<^verbatim>\<open>z\<close> do, with values 0 to 25).
\<close>

definition indexable_letter :: "char \<Rightarrow> bool" where
  "indexable_letter c \<longleftrightarrow> - 26 \<le> letter_to_int c \<and> letter_to_int c < 26"

text \<open>
  A state of an episode: 26 alphabet cells, every word of the list of length
  \<open>word_length\<close> and made of indexable letters, the secret one of the words.
\<close>

definition episode_ok :: "env \<Rightarrow> bool" where
  "episode_ok s \<longleftrightarrow>
     length (alphabet_status s) = 26 \<and>
     list_all (\<lambda>w. length w = word_length s \<and> list_all indexable_letter w) (word_list s) \<and>
     secret_word s \<in> set (word_list s)"

text \<open>
  The state a scored guess \<open>g\<close> leaves: the count one higher, the alphabet cells
  \<open>al\<close>, the feedback \<open>fb\<close> stored and both histories extended.
\<close>

definition after_guess :: "env \<Rightarrow> string \<Rightarrow> int list \<Rightarrow> int list \<Rightarrow> env" where
  "after_guess s g fb al =
     s\<lparr>current_guess_count := current_guess_count s + 1, alphabet_status := al,
       last_feedback := fb, guess_history := guess_history s @ [g],
       feedback_history := feedback_history s @ [fb]\<rparr>"

subsection \<open>Example states\<close>

text \<open>
  A state right after \<^verbatim>\<open>reset\<close> of an environment built from the words
  \<^verbatim>\<open>allow\<close> and \<^verbatim>\<open>lolly\<close>, with \<^verbatim>\<open>allow\<close> drawn as the secret; and the state
  that guessing the secret (action 0) leaves.
\<close>

definition example_env :: env where
  "example_env =
     \<lparr>word_length = 5, max_guesses = 6, word_list = [''allow'', ''lolly''],
      secret_word = ''allow'', current_guess_count = 0,
      last_feedback = replicate 5 0, alphabet_status = replicate 26 0,
      guess_history = [], feedback_history = []\<rparr>"

definition won_env :: env where
  "won_env = snd (step example_env 0)"

text \<open>The state after six guesses of \<^verbatim>\<open>lolly\<close> (action 1) against \<^verbatim>\<open>allow\<close>.\<close>

definition lost_env :: env where
  "lost_env = exec example_env (map Step [1, 1, 1, 1, 1, 1])"

text \<open>The state after five guesses of \<^verbatim>\<open>lolly\<close> against \<^verbatim>\<open>allow\<close>: one guess is left.\<close>

definition last_guess_env :: env where
  "last_guess_env = exec example_env (map Step [1, 1, 1, 1, 1])"

text \<open>
  An environment whose only word has a character that is no letter: construction
  accepts it, since it filters by length alone.
\<close>

definition apostrophe_env :: env where
  "apostrophe_env =
     \<lparr>word_length = 5, max_guesses = 6, word_list = [''don't''],
      secret_word = ''don't'', current_guess_count = 0,
      last_feedback = replicate 5 0, alphabet_status = replicate 26 0,
      guess_history = [], feedback_history = []\<rparr>"

section \<open>Indexing\<close>

lemmas eval_simps = step_def py_index_def py_pos_def py_store_def letter_to_int_def
  GREEN_def YELLOW_def GRAY_def EMPTY_def get_obs_def get_info_def Let_def upt_conv_Cons
  example_env_def

lemma py_pos_less: "py_pos n i = Inr k \<Longrightarrow> k < n"
  by (auto simp: py_pos_def split: if_splits)

lemma py_index_nth:
  "py_index xs i = Inr x \<Longrightarrow> \<exists>k<length xs. py_pos (length xs) i = Inr k \<and> x = xs ! k"
  by (auto simp: py_index_def split: sum.splits dest: py_pos_less)

lemma py_store_update:
  "py_store xs i v = Inr ys \<Longrightarrow>
   \<exists>k<length xs. py_pos (length xs) i = Inr k \<and> ys = xs[k := v]"
  by (auto simp: py_store_def split: sum.splits dest: py_pos_less)

lemma py_store_length: "py_store xs i v = Inr ys \<Longrightarrow> length ys = length xs"
  by (auto dest: py_store_update)

lemma py_index_in_range:
  "0 \<le> i \<Longrightarrow> i < int (length xs) \<Longrightarrow> py_index xs i = Inr (xs ! nat i)"
  by (simp add: py_index_def py_pos_def)

lemma py_index_nat: "i < length xs \<Longrightarrow> py_index xs (int i) = Inr (xs ! i)"
  by (simp add: py_index_def py_pos_def)

lemma step_frame:
  "secret_word (snd (step s a)) = secret_word s \<and> word_list (snd (step s a)) = word_list s \<and>
   word_length (snd (step s a)) = word_length s \<and> max_guesses (snd (step s a)) = max_guesses s"
  by (simp add: step_def Let_def split: sum.split prod.split)

lemma reset_frame:
  "secret_word (snd (reset s w)) = w \<and> word_list (snd (reset s w)) = word_list s \<and>
   word_length (snd (reset s w)) = word_length s \<and> max_guesses (snd (reset s w)) = max_guesses s"
  by (simp add: reset_def Let_def)

lemma step_when_exhausted:
  "max_guesses s \<le> current_guess_count s \<Longrightarrow>
   step s a = (Inr (get_obs s, 0, True, False, get_info s), s)"
  by (simp add: step_def)

lemma step_bad_index:
  "current_guess_count s < max_guesses s \<Longrightarrow>
   int (length (word_list s)) \<le> a \<or> a < - int (length (word_list s)) \<Longrightarrow>
   step s a = (Inl IndexError, s)"
  by (auto simp: step_def py_index_def py_pos_def)

lemma length_lower: "length (lower w) = length w"
  by (simp add: lower_def)

lemma sort_eq_Nil: "sort xs = [] \<longleftrightarrow> xs = []"
  by (metis length_sort length_0_conv)

section \<open>Construction\<close>

lemma lower_char_code:
  "(of_char (lower_char c) :: nat) =
     (if (65 \<le> (of_char c :: nat) \<and> (of_char c :: nat) \<le> 90)
         \<or> (192 \<le> (of_char c :: nat) \<and> (of_char c :: nat) \<le> 222
             \<and> (of_char c :: nat) \<noteq> 215)
      then of_char c + 32 else of_char c)"
  by (auto simp: lower_char_def Let_def)

lemma list_all2_function: "list_all2 (\<lambda>c d. d = f c) w v \<longleftrightarrow> v = map f w"
proof (induction w arbitrary: v)
  case Nil
  show ?case by auto
next
  case (Cons c w)
  show ?case by (cases v) (auto simp: Cons.IH)
qed

lemma lowercase_of_iff: "lowercase_of w v \<longleftrightarrow> v = lower w"
proof -
  have "lowercase_of w v \<longleftrightarrow>
        list_all2 (\<lambda>c d. (of_char d :: nat) = of_char (lower_char c)) w v"
    unfolding lowercase_of_def lower_char_code [symmetric] ..
  also have "\<dots> \<longleftrightarrow> list_all2 (\<lambda>c d. d = lower_char c) w v"
    by simp
  also have "\<dots> \<longleftrightarrow> v = lower w"
    by (simp add: list_all2_function lower_def)
  finally show ?thesis .
qed

lemma lower_no_capital:
  "c \<in> set (lower w) \<Longrightarrow> \<not> (65 \<le> (of_char c :: nat) \<and> (of_char c :: nat) \<le> 90)"
proof -
  assume "c \<in> set (lower w)"
  then obtain d where "c = lower_char d" by (auto simp: lower_def)
  then show ?thesis using lower_char_code [of d] by (auto split: if_splits)
qed

lemma init_Inr_word_list:
  "init cw wl mg = Inr e \<Longrightarrow>
   word_list e = sort (remdups (map lower (filter (\<lambda>w. int (length w) = wl) cw)))"
  by (auto simp: init_def Let_def split: if_splits)

text \<open>
  C9. Construction from a raw word collection and a target length \<open>wl\<close> raises
  \<^verbatim>\<open>ValueError\<close> when the collection is empty and when no word of length \<open>wl\<close> is in
  it. When it returns an environment, the word list holds exactly the input words of
  length \<open>wl\<close> lowercased (\<open>lowercase_of\<close>: capitals raised by 32, everything else
  kept), so every entry has length \<open>wl\<close> and no capital \<^verbatim>\<open>A\<close> to \<^verbatim>\<open>Z\<close>; the list
  has no duplicates and is in ascending lexicographic order (the order of \<open>string\<close>:
  code points compared position by position, a proper prefix first). And it does return
  one when some word has the length and \<open>max_guesses + 1\<close> is positive and fits a signed
  64-bit integer.
\<close>

theorem init_word_list:
  "(cw = [] \<longrightarrow> init cw wl mg = Inl ValueError) \<and>
   (filter (\<lambda>w. int (length w) = wl) cw = [] \<longrightarrow> init cw wl mg = Inl ValueError) \<and>
   (\<forall>e. init cw wl mg = Inr e \<longrightarrow>
      set (word_list e) = {v. \<exists>w\<in>set cw. int (length w) = wl \<and> lowercase_of w v} \<and>
      (\<forall>v\<in>set (word_list e).
         int (length v) = wl \<and>
         (\<forall>c\<in>set v. \<not> (65 \<le> (of_char c :: nat) \<and> (of_char c :: nat) \<le> 90))) \<and>
      sorted (word_list e) \<and> distinct (word_list e)) \<and>
   (filter (\<lambda>w. int (length w) = wl) cw \<noteq> [] \<and> 0 \<le> mg \<and> mg < 2 ^ 63 - 1 \<longrightarrow>
      (\<exists>e. init cw wl mg = Inr e))"
proof (intro conjI impI allI)
  show "init cw wl mg = Inl ValueError" if "cw = []"
    using that by (simp add: init_def)
  show "init cw wl mg = Inl ValueError" if "filter (\<lambda>w. int (length w) = wl) cw = []"
    using that by (simp add: init_def Let_def)
  show "set (word_list e) = {v. \<exists>w\<in>set cw. int (length w) = wl \<and> lowercase_of w v}"
    if "init cw wl mg = Inr e" for e
    unfolding init_Inr_word_list [OF that] by (auto simp: lowercase_of_iff)
  show "\<forall>v\<in>set (word_list e).
         int (length v) = wl \<and>
         (\<forall>c\<in>set v. \<not> (65 \<le> (of_char c :: nat) \<and> (of_char c :: nat) \<le> 90))"
    if "init cw wl mg = Inr e" for e
    unfolding init_Inr_word_list [OF that]
    using lower_no_capital by (auto simp: length_lower)
  show "sorted (word_list e)" if "init cw wl mg = Inr e" for e
    unfolding init_Inr_word_list [OF that] by simp
  show "distinct (word_list e)" if "init cw wl mg = Inr e" for e
    unfolding init_Inr_word_list [OF that] by simp
  show "\<exists>e. init cw wl mg = Inr e"
    if "filter (\<lambda>w. int (length w) = wl) cw \<noteq> [] \<and> 0 \<le> mg \<and> mg < 2 ^ 63 - 1"
    using that by (auto simp: init_def Let_def sort_eq_Nil)
qed

theorem init_word_list_witness:
  "init [] 5 6 = Inl ValueError \<and> init [''abc''] 5 6 = Inl ValueError \<and>
   init [''Lolly'', ''ALLOW'', ''abc'', ''allow''] 5 6
     = Inr (example_env\<lparr>secret_word := []\<rparr>) \<and>
   word_list (example_env\<lparr>secret_word := []\<rparr>) = [''allow'', ''lolly''] \<and>
   lowercase_of ''ALLOW'' ''allow'' \<and> lowercase_of ''Lolly'' ''lolly'' \<and>
   \<not> lowercase_of ''ALLOW'' ''ALLOW'' \<and>
   set [''allow'', ''lolly''] =
     {v. \<exists>w\<in>set [''Lolly'', ''ALLOW'', ''abc'', ''allow''].
           int (length w) = 5 \<and> lowercase_of w v} \<and>
   sorted [''allow'', ''lolly''] \<and> distinct [''allow'', ''lolly'']"
proof -
  have a: "init [] 5 6 = Inl ValueError"
    using init_word_list [of "[]" 5 6] by simp
  have b: "init [''abc''] 5 6 = Inl ValueError"
    using init_word_list [of "[''abc'']" 5 6] by simp
  have i: "init [''Lolly'', ''ALLOW'', ''abc'', ''allow''] 5 6
      = Inr (example_env\<lparr>secret_word := []\<rparr>)"
    by code_simp
  have w: "word_list (example_env\<lparr>secret_word := []\<rparr>) = [''allow'', ''lolly'']"
    by (simp add: example_env_def)
  have l: "lowercase_of ''ALLOW'' ''allow''" "lowercase_of ''Lolly'' ''lolly''"
    "\<not> lowercase_of ''ALLOW'' ''ALLOW''"
    by (simp_all add: lowercase_of_def)
  from init_word_list [of "[''Lolly'', ''ALLOW'', ''abc'', ''allow'']" 5 6] i
  have "set (word_list (example_env\<lparr>secret_word := []\<rparr>)) =
     {v. \<exists>w\<in>set [''Lolly'', ''ALLOW'', ''abc'', ''allow''].
           int (length w) = 5 \<and> lowercase_of w v} \<and>
   sorted (word_list (example_env\<lparr>secret_word := []\<rparr>)) \<and>
   distinct (word_list (example_env\<lparr>secret_word := []\<rparr>))"
    by blast
  with a b i w l show ?thesis by simp
qed

section \<open>Reset\<close>

text \<open>
  C7. After every call to \<^verbatim>\<open>reset\<close> the observation returned, which is the observation
  of the state left, has \<open>last_feedback\<close> all \<open>EMPTY\<close> (\<open>word_length\<close> zeros),
  \<open>alphabet_status\<close> all unused (26 zeros) and \<open>guesses_remaining = max_guesses\<close>; the
  guess count is 0 and both histories are empty.
\<close>

theorem reset_observation:
  "fst (fst (reset s w)) = get_obs (snd (reset s w)) \<and>
   obs_last_feedback (fst (fst (reset s w))) = replicate (word_length s) EMPTY \<and>
   obs_alphabet_status (fst (fst (reset s w))) = replicate 26 EMPTY \<and>
   EMPTY = 0 \<and>
   guesses_remaining (fst (fst (reset s w))) = max_guesses s \<and>
   current_guess_count (snd (reset s w)) = 0 \<and>
   guess_history (snd (reset s w)) = [] \<and>
   feedback_history (snd (reset s w)) = []"
  by (simp add: reset_def Let_def get_obs_def EMPTY_def)

theorem reset_observation_witness:
  "obs_last_feedback (fst (fst (reset won_env ''lolly''))) = replicate 5 0 \<and>
   obs_alphabet_status (fst (fst (reset won_env ''lolly''))) = replicate 26 0 \<and>
   guesses_remaining (fst (fst (reset won_env ''lolly''))) = 6 \<and>
   current_guess_count (snd (reset won_env ''lolly'')) = 0 \<and>
   guess_history (snd (reset won_env ''lolly'')) = []"
proof -
  have "word_length won_env = 5" and "max_guesses won_env = 6"
    unfolding won_env_def using step_frame [of example_env 0]
    by (simp_all add: example_env_def)
  then show ?thesis
    using reset_observation [of won_env "''lolly''"]
    by (simp add: EMPTY_def reset_def get_obs_def Let_def)
qed

section \<open>What a step leaves alone\<close>

text \<open>
  C10. A call to \<^verbatim>\<open>step\<close>, with any action, leaves \<open>secret_word\<close>, \<open>word_list\<close>,
  \<open>word_length\<close> and \<open>max_guesses\<close> as they were; \<^verbatim>\<open>reset\<close> replaces the secret word
  by the word drawn and leaves the other three.
\<close>

theorem step_keeps_configuration:
  "secret_word (snd (step s a)) = secret_word s \<and>
   word_list (snd (step s a)) = word_list s \<and>
   word_length (snd (step s a)) = word_length s \<and>
   max_guesses (snd (step s a)) = max_guesses s \<and>
   secret_word (snd (reset s w)) = w \<and>
   word_list (snd (reset s w)) = word_list s \<and>
   word_length (snd (reset s w)) = word_length s \<and>
   max_guesses (snd (reset s w)) = max_guesses s"
  using step_frame [of s a] reset_frame [of s w] by simp

theorem step_keeps_configuration_witness:
  "secret_word (snd (step example_env 1)) = ''allow'' \<and>
   word_list (snd (step example_env 1)) = [''allow'', ''lolly''] \<and>
   word_length (snd (step example_env 1)) = 5 \<and>
   max_guesses (snd (step example_env 1)) = 6 \<and>
   secret_word (snd (reset example_env ''lolly'')) = ''lolly''"
  using step_keeps_configuration [of example_env 1 "''lolly''"]
  by (simp add: example_env_def)

section \<open>Steps that do not play\<close>

text \<open>
  C2, as the code has it. When \<open>current_guess_count\<close> has reached \<open>max_guesses\<close>, every
  call to \<^verbatim>\<open>step\<close> returns the current observation with reward 0, terminated true and
  truncated false, leaves the whole state as it was, and a further call returns the same.
\<close>

theorem step_exhausted_noop:
  assumes "max_guesses s \<le> current_guess_count s"
  shows "step s a = (Inr (get_obs s, 0, True, False, get_info s), s) \<and>
         step (snd (step s a)) b = (Inr (get_obs s, 0, True, False, get_info s), s)"
  using assms by (simp add: step_when_exhausted)

theorem step_exhausted_noop_witness:
  "max_guesses lost_env \<le> current_guess_count lost_env \<and>
   step lost_env 1 = (Inr (get_obs lost_env, 0, True, False, get_info lost_env), lost_env) \<and>
   step (snd (step lost_env 1)) 0
     = (Inr (get_obs lost_env, 0, True, False, get_info lost_env), lost_env)"
proof -
  have h: "max_guesses lost_env \<le> current_guess_count lost_env"
    by (simp add: lost_env_def eval_simps)
  from step_exhausted_noop [OF h, of 1 0] h show ?thesis by blast
qed

text \<open>
  The claim as the specification words it also covers an episode that ended with a win
  before the guesses ran out. There the code plays on: in \<open>won_env\<close> the guess counted
  was the secret (reward 1, terminated), and the next call is scored as a guess,
  returns reward \<open>-0.1\<close> with terminated false, and changes the state.
\<close>

theorem step_after_win_counterexample:
  "fst (step example_env 0) = Inr (get_obs won_env, 1, True, False, get_info won_env) \<and>
   fst (step won_env 1) =
     Inr (get_obs (snd (step won_env 1)), - 0.1, False, False, get_info (snd (step won_env 1))) \<and>
   step won_env 1 \<noteq> (Inr (get_obs won_env, 0, True, False, get_info won_env), won_env) \<and>
   snd (step won_env 1) \<noteq> won_env"
  unfolding won_env_def by (simp add: eval_simps)

text \<open>
  C3, as the code has it. While guesses remain, an action index at or above the number
  of words, or below its negation, makes \<^verbatim>\<open>step\<close> raise \<^verbatim>\<open>IndexError\<close> before anything
  is written: the state is unchanged.
\<close>

theorem step_index_error:
  assumes "current_guess_count s < max_guesses s"
    and "int (num_words s) \<le> a \<or> a < - int (num_words s)"
  shows "step s a = (Inl IndexError, s)"
  using assms by (simp add: step_bad_index num_words_def)

theorem step_index_error_witness:
  "current_guess_count example_env < max_guesses example_env \<and>
   int (num_words example_env) \<le> 2 \<and>
   step example_env 2 = (Inl IndexError, example_env) \<and>
   step example_env (- 3) = (Inl IndexError, example_env)"
  using step_index_error [of example_env 2] step_index_error [of example_env "- 3"]
  by (simp add: example_env_def num_words_def)

text \<open>
  A negative index from \<open>- num_words\<close> up to \<open>-1\<close> is outside the action space, yet
  \<^verbatim>\<open>self.word_list[action]\<close> decodes it from the end of the list: action \<open>-1\<close> plays the
  last word as a guess, returns normally and changes the state.
\<close>

theorem step_negative_action_counterexample:
  "\<not> (0 \<le> (- 1 :: int) \<and> (- 1 :: int) < int (num_words example_env)) \<and>
   fst (step example_env (- 1)) =
     Inr (get_obs (snd (step example_env (- 1))), - 0.1, False, False,
          get_info (snd (step example_env (- 1)))) \<and>
   guess_history (snd (step example_env (- 1))) = [''lolly''] \<and>
   snd (step example_env (- 1)) \<noteq> example_env"
  by (simp add: eval_simps num_words_def)

section \<open>Alphabet status\<close>

lemma promoted_refl: "promoted v v"
  by (simp add: promoted_def)

lemma promoted_trans: "promoted a b \<Longrightarrow> promoted b c \<Longrightarrow> promoted a c"
  by (auto simp: promoted_def GREEN_def YELLOW_def GRAY_def EMPTY_def)

lemma statuses_promoted_refl: "statuses_promoted al al"
  by (simp add: statuses_promoted_def promoted_refl)

lemma statuses_promoted_trans:
  "statuses_promoted a b \<Longrightarrow> statuses_promoted b c \<Longrightarrow> statuses_promoted a c"
  unfolding statuses_promoted_def by (metis promoted_trans)

lemma statuses_promoted_update:
  "promoted (al ! k) v \<Longrightarrow> statuses_promoted al (al[k := v])"
proof -
  assume h: "promoted (al ! k) v"
  have "promoted (al ! j) (al[k := v] ! j)" if "j < length al" for j
    using that h by (cases "j = k") (simp_all add: promoted_refl)
  then show ?thesis by (simp add: statuses_promoted_def)
qed

lemma statuses_promoted_store:
  assumes "py_store al i v = Inr al'" and "\<And>k. k < length al \<Longrightarrow> py_index al i = Inr (al ! k) \<Longrightarrow> promoted (al ! k) v"
  shows "statuses_promoted al al'"
proof -
  from assms(1) obtain k where k: "k < length al" "py_pos (length al) i = Inr k" "al' = al[k := v]"
    by (auto dest: py_store_update)
  then have "py_index al i = Inr (al ! k)" by (simp add: py_index_def)
  with k assms(2) show ?thesis by (simp add: statuses_promoted_update)
qed

lemma pass_greens_promoted:
  "statuses_promoted al (snd (pass_greens g s is fb cnt al))"
proof (induction "is" arbitrary: fb cnt al)
  case Nil
  show ?case by (simp add: statuses_promoted_refl)
next
  case (Cons i "is")
  show ?case
  proof (cases "py_index g (int i)")
    case (Inl e)
    then show ?thesis by (simp add: statuses_promoted_refl)
  next
    case gc: (Inr gc)
    show ?thesis
    proof (cases "py_index s (int i)")
      case (Inl e)
      with gc show ?thesis by (simp add: statuses_promoted_refl)
    next
      case sc: (Inr sc)
      show ?thesis
      proof (cases "gc = sc")
        case False
        with gc sc show ?thesis using Cons.IH by simp
      next
        case True
        show ?thesis
        proof (cases "py_store al (letter_to_int gc) GREEN")
          case (Inl e)
          with gc sc True show ?thesis by (simp add: statuses_promoted_refl)
        next
          case (Inr al')
          then have "statuses_promoted al al'"
            by (rule statuses_promoted_store) (simp add: promoted_def)
          moreover have "statuses_promoted al'
              (snd (pass_greens g s is (fb[i := GREEN]) (cnt(gc := cnt gc - 1)) al'))"
            by (rule Cons.IH)
          ultimately show ?thesis using gc sc True Inr
            by (auto intro: statuses_promoted_trans)
        qed
      qed
    qed
  qed
qed


lemma pass_yellows_promoted:
  "statuses_promoted al (snd (pass_yellows g s is fb cnt al))"
proof (induction "is" arbitrary: fb cnt al)
  case Nil
  show ?case by (simp add: statuses_promoted_refl)
next
  case (Cons i "is")
  note Let_def [simp]
  have store: "statuses_promoted al (snd (pass_yellows g s is fb' cnt' al'))"
    if "py_store al j v = Inr al'"
      and "\<And>k. k < length al \<Longrightarrow> py_index al j = Inr (al ! k) \<Longrightarrow> promoted (al ! k) v"
    for j v al' fb' cnt'
  proof -
    have "statuses_promoted al al'"
      using that by (rule statuses_promoted_store)
    then show ?thesis
      by (rule statuses_promoted_trans [OF _ Cons.IH])
  qed
  show ?case
  proof (cases "fb ! i = GREEN")
    case True
    then show ?thesis using Cons.IH by simp
  next
    case notgreen: False
    show ?thesis
    proof (cases "py_index g (int i)")
      case (Inl e)
      with notgreen show ?thesis by (simp add: statuses_promoted_refl)
    next
      case letter: (Inr letter)
      show ?thesis
      proof (cases "py_index al (letter_to_int letter)")
        case (Inl e)
        with notgreen letter show ?thesis by (simp add: statuses_promoted_refl)
      next
        case st: (Inr st)
        show ?thesis
        proof (cases "letter \<in> set s \<and> cnt letter > 0")
          case yellow: True
          show ?thesis
          proof (cases "st = GREEN")
            case True
            with notgreen letter st yellow show ?thesis using Cons.IH by simp
          next
            case False
            show ?thesis
            proof (cases "py_store al (letter_to_int letter) YELLOW")
              case (Inl e)
              with notgreen letter st yellow False show ?thesis
                by (simp add: statuses_promoted_refl)
            next
              case (Inr al')
              have "statuses_promoted al
                  (snd (pass_yellows g s is (fb[i := YELLOW]) (cnt(letter := cnt letter - 1)) al'))"
                using Inr
              proof (rule store)
                fix k assume "py_index al (letter_to_int letter) = Inr (al ! k)"
                with st False show "promoted (al ! k) YELLOW" by (simp add: promoted_def)
              qed
              with notgreen letter st yellow False Inr show ?thesis by simp
            qed
          qed
        next
          case gray: False
          show ?thesis
          proof (cases "st = EMPTY")
            case False
            with notgreen letter st gray show ?thesis using Cons.IH by auto
          next
            case True
            show ?thesis
            proof (cases "py_store al (letter_to_int letter) GRAY")
              case (Inl e)
              with notgreen letter st gray True show ?thesis
                by (auto simp: statuses_promoted_refl)
            next
              case (Inr al')
              have "statuses_promoted al (snd (pass_yellows g s is fb cnt al'))"
                using Inr
              proof (rule store)
                fix k assume "py_index al (letter_to_int letter) = Inr (al ! k)"
                with st True show "promoted (al ! k) GRAY" by (simp add: promoted_def)
              qed
              with notgreen letter st gray True Inr show ?thesis by auto
            qed
          qed
        qed
      qed
    qed
  qed
qed

lemma step_promoted:
  "statuses_promoted (alphabet_status s) (alphabet_status (snd (step s a)))"
proof (cases "max_guesses s \<le> current_guess_count s")
  case True
  then show ?thesis by (simp add: step_def statuses_promoted_refl)
next
  case running: False
  show ?thesis
  proof (cases "py_index (word_list s) a")
    case (Inl e)
    with running show ?thesis by (simp add: step_def statuses_promoted_refl)
  next
    case (Inr g)
    define cnt where "cnt = (\<lambda>c. int (count_list (secret_word s) c))"
    obtain r1 al1 where p1:
      "pass_greens g (secret_word s) [0..<word_length s] (replicate (word_length s) GRAY)
         cnt (alphabet_status s) = (r1, al1)"
      by (cases "pass_greens g (secret_word s) [0..<word_length s]
            (replicate (word_length s) GRAY) cnt (alphabet_status s)")
    have a1: "statuses_promoted (alphabet_status s) al1"
      using pass_greens_promoted [of "alphabet_status s" g "secret_word s" "[0..<word_length s]"
          "replicate (word_length s) GRAY" cnt] p1 by simp
    show ?thesis
    proof (cases r1)
      case (Inl e)
      with running Inr a1 p1 show ?thesis
        by (simp add: step_def Let_def cnt_def)
    next
      case r1: (Inr fc)
      obtain fb1 cnt1 where fc: "fc = (fb1, cnt1)" by (cases fc)
      obtain r2 al2 where p2:
        "pass_yellows g (secret_word s) [0..<word_length s] fb1 cnt1 al1 = (r2, al2)"
        by (cases "pass_yellows g (secret_word s) [0..<word_length s] fb1 cnt1 al1")
      have "statuses_promoted al1 al2"
        using pass_yellows_promoted [of al1 g "secret_word s" "[0..<word_length s]" fb1 cnt1] p2
        by simp
      with a1 have a2: "statuses_promoted (alphabet_status s) al2"
        by (rule statuses_promoted_trans)
      show ?thesis
      proof (cases r2)
        case (Inl e)
        with running Inr a2 p1 p2 r1 fc show ?thesis
          by (simp add: step_def Let_def cnt_def)
      next
        case (Inr fc2)
        obtain fb2 cnt2 where "fc2 = (fb2, cnt2)" by (cases fc2)
        with running \<open>py_index (word_list s) a = Inr g\<close> a2 p1 p2 r1 fc Inr show ?thesis
          by (simp add: step_def Let_def cnt_def)
      qed
    qed
  qed
qed

lemma exec_steps_promoted:
  "statuses_promoted (alphabet_status s) (alphabet_status (exec s (map Step as)))"
proof (induction as arbitrary: s)
  case Nil
  show ?case by (simp add: statuses_promoted_refl)
next
  case (Cons a as)
  show ?case
    using step_promoted [of s a] Cons.IH [of "snd (step s a)"]
    by (auto intro: statuses_promoted_trans)
qed

lemma promoted_rank: "promoted old new \<Longrightarrow> status_rank old \<le> status_rank new"
  by (auto simp: promoted_def status_rank_def GREEN_def YELLOW_def GRAY_def EMPTY_def)


text \<open>
  C4. Over any run of steps, every cell of \<open>alphabet_status\<close> keeps or raises its rank
  in the ordering UNUSED < GRAY/YELLOW < GREEN: a \<open>GREEN\<close> cell stays \<open>GREEN\<close>, a
  \<open>YELLOW\<close> cell ends \<open>YELLOW\<close> or \<open>GREEN\<close>, and a cell that ends \<open>GRAY\<close> was
  \<open>GRAY\<close> or unused (\<open>EMPTY\<close>) before. This holds too when a step raises midway.
\<close>

theorem alphabet_status_monotone:
  assumes "j < length (alphabet_status s)"
  shows "length (alphabet_status (exec s (map Step as))) = length (alphabet_status s) \<and>
    status_rank (alphabet_status s ! j) \<le> status_rank (alphabet_status (exec s (map Step as)) ! j) \<and>
    (alphabet_status s ! j = GREEN \<longrightarrow> alphabet_status (exec s (map Step as)) ! j = GREEN) \<and>
    (alphabet_status s ! j = YELLOW \<longrightarrow>
       alphabet_status (exec s (map Step as)) ! j = YELLOW
       \<or> alphabet_status (exec s (map Step as)) ! j = GREEN) \<and>
    (alphabet_status (exec s (map Step as)) ! j = GRAY \<longrightarrow>
       alphabet_status s ! j = GRAY \<or> alphabet_status s ! j = EMPTY)"
proof -
  have sp: "statuses_promoted (alphabet_status s) (alphabet_status (exec s (map Step as)))"
    by (rule exec_steps_promoted)
  with assms have p: "promoted (alphabet_status s ! j) (alphabet_status (exec s (map Step as)) ! j)"
    by (simp add: statuses_promoted_def)
  from sp have "length (alphabet_status (exec s (map Step as))) = length (alphabet_status s)"
    by (simp add: statuses_promoted_def)
  moreover note promoted_rank [OF p]
  moreover from p have "alphabet_status s ! j = GREEN \<longrightarrow> alphabet_status (exec s (map Step as)) ! j = GREEN"
    by (auto simp: promoted_def GREEN_def YELLOW_def GRAY_def EMPTY_def)
  moreover from p have "alphabet_status s ! j = YELLOW \<longrightarrow>
       alphabet_status (exec s (map Step as)) ! j = YELLOW
       \<or> alphabet_status (exec s (map Step as)) ! j = GREEN"
    by (auto simp: promoted_def GREEN_def YELLOW_def GRAY_def EMPTY_def)
  moreover from p have "alphabet_status (exec s (map Step as)) ! j = GRAY \<longrightarrow>
       alphabet_status s ! j = GRAY \<or> alphabet_status s ! j = EMPTY"
    by (auto simp: promoted_def GREEN_def YELLOW_def GRAY_def EMPTY_def)
  ultimately show ?thesis by blast
qed

theorem alphabet_status_monotone_witness:
  "(14::nat) < length (alphabet_status (snd (step example_env 1))) \<and>
   alphabet_status (snd (step example_env 1)) ! 14 = YELLOW \<and>
   alphabet_status (exec (snd (step example_env 1)) (map Step [0])) ! 14 = GREEN \<and>
   status_rank (alphabet_status (snd (step example_env 1)) ! 14)
     \<le> status_rank (alphabet_status (exec (snd (step example_env 1)) (map Step [0])) ! 14)"
  using alphabet_status_monotone [of 14 "snd (step example_env 1)" "[0]"]
  by (simp add: eval_simps)

section \<open>The guess counter\<close>

lemma step_cases [case_names exhausted bad_index raised played]:
  obtains
    "max_guesses s \<le> current_guess_count s"
      and "step s a = (Inr (get_obs s, 0, True, False, get_info s), s)"
  | e where "current_guess_count s < max_guesses s"
      and "py_index (word_list s) a = Inl e"
      and "step s a = (Inl e, s)"
  | g e al where "current_guess_count s < max_guesses s"
      and "py_index (word_list s) a = Inr g"
      and "step s a =
             (Inl e, s\<lparr>current_guess_count := current_guess_count s + 1, alphabet_status := al\<rparr>)"
  | g fb1 cnt1 al1 fb2 cnt2 al2 where "current_guess_count s < max_guesses s"
      and "py_index (word_list s) a = Inr g"
      and "pass_greens g (secret_word s) [0..<word_length s] (replicate (word_length s) GRAY)
             (\<lambda>c. int (count_list (secret_word s) c)) (alphabet_status s) = (Inr (fb1, cnt1), al1)"
      and "pass_yellows g (secret_word s) [0..<word_length s] fb1 cnt1 al1 = (Inr (fb2, cnt2), al2)"
      and "step s a =
             (Inr (get_obs (s\<lparr>current_guess_count := current_guess_count s + 1,
                     alphabet_status := al2, last_feedback := fb2,
                     guess_history := guess_history s @ [g],
                     feedback_history := feedback_history s @ [fb2]\<rparr>),
                   (if g = secret_word s then 1
                    else if current_guess_count s + 1 = max_guesses s then - 1 else - 0.1),
                   (g = secret_word s \<or> current_guess_count s + 1 = max_guesses s),
                   False,
                   get_info (s\<lparr>current_guess_count := current_guess_count s + 1,
                     alphabet_status := al2, last_feedback := fb2,
                     guess_history := guess_history s @ [g],
                     feedback_history := feedback_history s @ [fb2]\<rparr>)),
              s\<lparr>current_guess_count := current_guess_count s + 1,
                     alphabet_status := al2, last_feedback := fb2,
                     guess_history := guess_history s @ [g],
                     feedback_history := feedback_history s @ [fb2]\<rparr>)"
proof (cases "max_guesses s \<le> current_guess_count s")
  case True
  then show ?thesis using that(1) by (simp add: step_def)
next
  case running: False
  show ?thesis
  proof (cases "py_index (word_list s) a")
    case (Inl e)
    with running show ?thesis using that(2) by (simp add: step_def)
  next
    case g: (Inr g)
    obtain r1 al1 where p1:
      "pass_greens g (secret_word s) [0..<word_length s] (replicate (word_length s) GRAY)
         (\<lambda>c. int (count_list (secret_word s) c)) (alphabet_status s) = (r1, al1)"
      by (cases "pass_greens g (secret_word s) [0..<word_length s]
            (replicate (word_length s) GRAY) (\<lambda>c. int (count_list (secret_word s) c))
            (alphabet_status s)")
    show ?thesis
    proof (cases r1)
      case (Inl e)
      with running g p1 show ?thesis using that(3) [of g e al1]
        by (simp add: step_def Let_def)
    next
      case r1: (Inr fc)
      obtain fb1 cnt1 where fc: "fc = (fb1, cnt1)" by (cases fc)
      obtain r2 al2 where p2:
        "pass_yellows g (secret_word s) [0..<word_length s] fb1 cnt1 al1 = (r2, al2)"
        by (cases "pass_yellows g (secret_word s) [0..<word_length s] fb1 cnt1 al1")
      show ?thesis
      proof (cases r2)
        case (Inl e)
        with running g p1 p2 r1 fc show ?thesis using that(3) [of g e al2]
          by (simp add: step_def Let_def)
      next
        case r2: (Inr fc2)
        obtain fb2 cnt2 where fc2: "fc2 = (fb2, cnt2)" by (cases fc2)
        show ?thesis
        proof (rule that(4) [of g fb1 cnt1 al1 fb2 cnt2 al2])
          show "current_guess_count s < max_guesses s" using running by simp
          show "py_index (word_list s) a = Inr g" by (rule g)
          show "pass_greens g (secret_word s) [0..<word_length s] (replicate (word_length s) GRAY)
             (\<lambda>c. int (count_list (secret_word s) c)) (alphabet_status s) = (Inr (fb1, cnt1), al1)"
            using p1 r1 fc by simp
          show "pass_yellows g (secret_word s) [0..<word_length s] fb1 cnt1 al1 = (Inr (fb2, cnt2), al2)"
            using p2 r2 fc2 by simp
        next
          show "step s a =
             (Inr (get_obs (s\<lparr>current_guess_count := current_guess_count s + 1,
                     alphabet_status := al2, last_feedback := fb2,
                     guess_history := guess_history s @ [g],
                     feedback_history := feedback_history s @ [fb2]\<rparr>),
                   (if g = secret_word s then 1
                    else if current_guess_count s + 1 = max_guesses s then - 1 else - 0.1),
                   (g = secret_word s \<or> current_guess_count s + 1 = max_guesses s),
                   False,
                   get_info (s\<lparr>current_guess_count := current_guess_count s + 1,
                     alphabet_status := al2, last_feedback := fb2,
                     guess_history := guess_history s @ [g],
                     feedback_history := feedback_history s @ [fb2]\<rparr>)),
              s\<lparr>current_guess_count := current_guess_count s + 1,
                     alphabet_status := al2, last_feedback := fb2,
                     guess_history := guess_history s @ [g],
                     feedback_history := feedback_history s @ [fb2]\<rparr>)"
            using running g p1 p2 r1 fc r2 fc2 by (simp add: step_def Let_def)
        qed
      qed
    qed
  qed
qed

lemma step_count:
  "current_guess_count (snd (step s a)) =
     (if current_guess_count s < max_guesses s \<and> (\<exists>g. py_index (word_list s) a = Inr g)
      then current_guess_count s + 1 else current_guess_count s)"
  by (rule step_cases [of s a]) auto

lemma init_count_in_bounds: "init cw wl mg = Inr s \<Longrightarrow> count_in_bounds s"
  by (auto simp: init_def Let_def count_in_bounds_def split: if_splits)

lemma reset_count_in_bounds: "count_in_bounds s \<Longrightarrow> count_in_bounds (snd (reset s w))"
  by (simp add: reset_def Let_def count_in_bounds_def)

lemma step_count_in_bounds: "count_in_bounds s \<Longrightarrow> count_in_bounds (snd (step s a))"
  using step_frame [of s a] by (simp add: count_in_bounds_def step_count)

lemma exec_count_in_bounds: "count_in_bounds s \<Longrightarrow> count_in_bounds (exec s cs)"
proof (induction cs arbitrary: s)
  case Nil
  then show ?case by simp
next
  case (Cons c cs)
  then show ?case
    by (cases c) (simp_all add: reset_count_in_bounds step_count_in_bounds)
qed

text \<open>
  C8. In every state reached from a constructed environment by any sequence of
  \<^verbatim>\<open>reset\<close> and \<^verbatim>\<open>step\<close> calls, \<open>guesses_remaining\<close> of the observation is
  \<open>max_guesses - current_guess_count\<close>, lies between 0 and \<open>max_guesses\<close>, and so
  \<open>current_guess_count \<le> max_guesses\<close>; and a step taken there while guesses remain,
  with an action that decodes to a word, lowers it by exactly 1 and leaves it at least 0.
\<close>

theorem guesses_remaining_bounds:
  assumes "init cw wl mg = Inr s0" and "s = exec s0 cs"
  shows "guesses_remaining (get_obs s) = max_guesses s - current_guess_count s \<and>
         0 \<le> guesses_remaining (get_obs s) \<and>
         guesses_remaining (get_obs s) \<le> max_guesses s \<and>
         current_guess_count s \<le> max_guesses s \<and>
         (current_guess_count s < max_guesses s \<and> py_index (word_list s) a = Inr g \<longrightarrow>
            guesses_remaining (get_obs (snd (step s a))) = guesses_remaining (get_obs s) - 1 \<and>
            0 \<le> guesses_remaining (get_obs (snd (step s a))))"
proof -
  have "count_in_bounds s"
    using assms by (simp add: init_count_in_bounds exec_count_in_bounds)
  then show ?thesis
    using step_frame [of s a] by (auto simp: count_in_bounds_def get_obs_def step_count)
qed

theorem guesses_remaining_bounds_witness:
  "init [''lolly'', ''Allow'', ''abc''] 5 6 = Inr (example_env\<lparr>secret_word := []\<rparr>) \<and>
   0 \<le> guesses_remaining (get_obs (exec (example_env\<lparr>secret_word := []\<rparr>) [Reset ''allow'', Step 1])) \<and>
   guesses_remaining (get_obs (snd (step (exec (example_env\<lparr>secret_word := []\<rparr>) [Reset ''allow'', Step 1]) 0)))
     = guesses_remaining (get_obs (exec (example_env\<lparr>secret_word := []\<rparr>) [Reset ''allow'', Step 1])) - 1"
proof -
  have i: "init [''lolly'', ''Allow'', ''abc''] 5 6 = Inr (example_env\<lparr>secret_word := []\<rparr>)"
    by code_simp
  have c: "current_guess_count (exec (example_env\<lparr>secret_word := []\<rparr>) [Reset ''allow'', Step 1]) = 1"
    by (simp add: reset_def eval_simps)
  have f: "max_guesses (exec (example_env\<lparr>secret_word := []\<rparr>) [Reset ''allow'', Step 1]) = 6"
     "word_list (exec (example_env\<lparr>secret_word := []\<rparr>) [Reset ''allow'', Step 1]) = [''allow'', ''lolly'']"
    using step_frame [of "snd (reset (example_env\<lparr>secret_word := []\<rparr>) ''allow'')" 1]
      reset_frame [of "example_env\<lparr>secret_word := []\<rparr>" "''allow''"]
    by (simp_all add: example_env_def)
  have p: "py_index [''allow'', ''lolly''] 0 = Inr ''allow''"
    by (simp add: py_index_def py_pos_def)
  from guesses_remaining_bounds [OF i refl, of "[Reset ''allow'', Step 1]" 0 "''allow''"] i c f p
  show ?thesis by simp
qed

section \<open>The two passes compute the two-pass scoring\<close>

lemma pass_greens_Cons_returns:
  assumes "pass_greens g s (i # is) fb cnt al = (Inr r, al')" and "i < length g" and "i < length s"
  shows "\<exists>al''. pass_greens g s is (if g ! i = s ! i then fb[i := GREEN] else fb)
            (if g ! i = s ! i then cnt(g ! i := cnt (g ! i) - 1) else cnt) al'' = (Inr r, al')"
  using assms by (auto simp: py_index_nat split: sum.splits if_splits)

lemma pass_yellows_Cons_returns:
  assumes "pass_yellows g s (i # is) fb cnt al = (Inr r, al')" and "i < length g"
  shows "\<exists>al''. pass_yellows g s is
            (if fb ! i \<noteq> GREEN \<and> g ! i \<in> set s \<and> 0 < cnt (g ! i) then fb[i := YELLOW] else fb)
            (if fb ! i \<noteq> GREEN \<and> g ! i \<in> set s \<and> 0 < cnt (g ! i)
             then cnt(g ! i := cnt (g ! i) - 1) else cnt) al'' = (Inr r, al')"
  using assms by (auto simp: py_index_nat Let_def split: sum.splits if_splits)

lemma pass_greens_scored:
  assumes "pass_greens g s [k..<n] fb cnt al = (Inr (fb', cnt'), al')"
    and "length g = n" and "length s = n" and "length fb = n"
  shows "length fb' = n \<and> cnt' = counts_after_greens (drop k g) (drop k s) cnt \<and>
         (\<forall>i<n. fb' ! i = (if k \<le> i \<and> g ! i = s ! i then GREEN else fb ! i))"
  using assms
proof (induction "n - k" arbitrary: k fb cnt al)
  case 0
  then show ?case by simp
next
  case (Suc d)
  then have k: "k < n" by simp
  then have upt: "[k..<n] = k # [Suc k..<n]" by (simp add: upt_conv_Cons)
  from k Suc.prems have dg: "drop k g = g ! k # drop (Suc k) g"
    and ds: "drop k s = s ! k # drop (Suc k) s"
    by (simp_all add: Cons_nth_drop_Suc)
  let ?fb = "if g ! k = s ! k then fb[k := GREEN] else fb"
  let ?cnt = "if g ! k = s ! k then cnt(g ! k := cnt (g ! k) - 1) else cnt"
  from Suc.prems k obtain al'' where
    rec: "pass_greens g s [Suc k..<n] ?fb ?cnt al'' = (Inr (fb', cnt'), al')"
    using pass_greens_Cons_returns [of g s k "[Suc k..<n]" fb cnt al "(fb', cnt')" al']
    by (auto simp: upt)
  have "d = n - Suc k" using Suc.hyps(2) by simp
  from Suc.hyps(1) [OF this rec] Suc.prems
  have ih: "length fb' = n" "cnt' = counts_after_greens (drop (Suc k) g) (drop (Suc k) s) ?cnt"
    "\<forall>i<n. fb' ! i = (if Suc k \<le> i \<and> g ! i = s ! i then GREEN else ?fb ! i)"
    by simp_all
  have "fb' ! i = (if k \<le> i \<and> g ! i = s ! i then GREEN else fb ! i)" if "i < n" for i
  proof (cases "i = k")
    case True
    with ih(3) that Suc.prems(4) show ?thesis by simp
  next
    case False
    with ih(3) that show ?thesis by (auto simp: nth_list_update)
  qed
  with ih(1,2) show ?case by (simp add: dg ds)
qed

lemma count_list_pos_mem: "0 < count_list xs x \<Longrightarrow> x \<in> set xs"
  by (metis count_notin less_numeral_extra(3))

lemma pass_yellows_scored:
  assumes "pass_yellows g s [k..<n] fb cnt al = (Inr (fb', cnt'), al')"
    and "length g = n" and "length fb = n"
    and "\<forall>c. cnt c \<le> int (count_list s c)"
    and "\<forall>i. k \<le> i \<and> i < n \<longrightarrow> fb ! i = GREEN \<or> fb ! i = GRAY"
  shows "length fb' = n \<and> take k fb' = take k fb \<and>
         drop k fb' = yellow_gray (drop k g) (map (\<lambda>f. f = GREEN) (drop k fb)) cnt"
  using assms
proof (induction "n - k" arbitrary: k fb cnt al)
  case 0
  then show ?case by simp
next
  case (Suc d)
  then have k: "k < n" by simp
  then have upt: "[k..<n] = k # [Suc k..<n]" by (simp add: upt_conv_Cons)
  from k Suc.prems have dg: "drop k g = g ! k # drop (Suc k) g"
    and dfb: "drop k fb = fb ! k # drop (Suc k) fb"
    by (simp_all add: Cons_nth_drop_Suc)
  have mem: "g ! k \<in> set s \<and> 0 < cnt (g ! k) \<longleftrightarrow> 0 < cnt (g ! k)"
    using Suc.prems(4) count_list_pos_mem [of s "g ! k"]
    by (metis int_ops(1) less_le_trans of_nat_less_iff)
  define yel where "yel \<longleftrightarrow> fb ! k \<noteq> GREEN \<and> 0 < cnt (g ! k)"
  let ?fb = "if yel then fb[k := YELLOW] else fb"
  let ?cnt = "if yel then cnt(g ! k := cnt (g ! k) - 1) else cnt"
  from Suc.prems k obtain al'' where
    rec: "pass_yellows g s [Suc k..<n] ?fb ?cnt al'' = (Inr (fb', cnt'), al')"
    using pass_yellows_Cons_returns [of g s k "[Suc k..<n]" fb cnt al "(fb', cnt')" al']
    by (auto simp: upt mem yel_def)
  have d: "d = n - Suc k" using Suc.hyps(2) by simp
  have len: "length ?fb = n" using Suc.prems(3) by simp
  have cnt_le: "\<forall>c. ?cnt c \<le> int (count_list s c)"
    using Suc.prems(4) by (auto simp: order.trans [OF _ Suc.prems(4) [rule_format]])
  have rest: "\<forall>i. Suc k \<le> i \<and> i < n \<longrightarrow> ?fb ! i = GREEN \<or> ?fb ! i = GRAY"
    using Suc.prems(5) by (auto simp: nth_list_update)
  from Suc.hyps(1) [OF d rec Suc.prems(2) len cnt_le rest]
  have ih: "length fb' = n" "take (Suc k) fb' = take (Suc k) ?fb"
    "drop (Suc k) fb' = yellow_gray (drop (Suc k) g) (map (\<lambda>f. f = GREEN) (drop (Suc k) ?fb)) ?cnt"
    by simp_all
  from ih(2) have tk: "take k fb' = take k ?fb"
    by (metis take_take min.cobounded2 min_def le_SucI order_refl)
  from ih(1,2) k len have at_k: "fb' ! k = ?fb ! k"
    by (metis lessI nth_take)
  from ih(1) k have dfb': "drop k fb' = fb' ! k # drop (Suc k) fb'"
    by (simp add: Cons_nth_drop_Suc)
  have dropk: "drop (Suc k) ?fb = drop (Suc k) fb" by simp
  have gk: "fb ! k = GREEN \<or> fb ! k = GRAY" using Suc.prems(5) k by simp
  have "drop k fb' = yellow_gray (drop k g) (map (\<lambda>f. f = GREEN) (drop k fb)) cnt"
    using gk k Suc.prems(3) ih(3) at_k
    by (auto simp: dfb' dg dfb dropk yel_def GREEN_def GRAY_def YELLOW_def)
  moreover have "take k fb' = take k fb" using tk by simp
  ultimately show ?case using ih(1) by simp
qed

section \<open>Properties of the scoring, and when the passes return\<close>

lemma counts_after_greens_eq:
  "counts_after_greens g s cnt c =
     cnt c - int (length (filter (\<lambda>(a, b). a = b \<and> a = c) (zip g s)))"
  by (induction g s cnt rule: counts_after_greens.induct) auto

lemma greens_le_count:
  "length (filter (\<lambda>(a, b). a = b \<and> a = c) (zip g s)) \<le> count_list s c"
proof (induction g arbitrary: s)
  case Nil
  show ?case by simp
next
  case (Cons x g)
  show ?case
  proof (cases s)
    case Nil
    then show ?thesis by simp
  next
    case (Cons y s')
    with Cons.IH [of s'] show ?thesis by auto
  qed
qed

lemma counts_after_greens_bounds:
  "0 \<le> counts_after_greens g s (\<lambda>c. int (count_list s c)) c \<and>
   counts_after_greens g s (\<lambda>c. int (count_list s c)) c \<le> int (count_list s c)"
  using greens_le_count [of c g s] by (simp add: counts_after_greens_eq)

lemma marks_greens:
  "length (filter (\<lambda>(x, b). b \<and> x = c) (zip g (green_marks g s))) =
   length (filter (\<lambda>(a, b). a = b \<and> a = c) (zip g s))"
  by (induction g s rule: green_marks.induct) auto

lemma yellow_gray_bound:
  "\<forall>c. 0 \<le> cnt c \<Longrightarrow>
   int (length (filter (\<lambda>(x, f). x = c \<and> (f = GREEN \<or> f = YELLOW)) (zip g (yellow_gray g m cnt))))
     \<le> cnt c + int (length (filter (\<lambda>(x, b). b \<and> x = c) (zip g m)))"
proof (induction g m cnt rule: yellow_gray.induct)
  case (1 g gs m ms cnt)
  show ?case
  proof (cases m)
    case True
    with 1 show ?thesis by auto
  next
    case notm: False
    show ?thesis
    proof (cases "0 < cnt g")
      case True
      define cnt' where "cnt' = cnt(g := cnt g - 1)"
      have nonneg: "\<forall>c. 0 \<le> cnt' c" using "1.prems" True by (simp add: cnt'_def)
      have ih: "int (length (filter (\<lambda>(x, f). x = c \<and> (f = GREEN \<or> f = YELLOW))
                  (zip gs (yellow_gray gs ms cnt'))))
            \<le> cnt' c + int (length (filter (\<lambda>(x, b). b \<and> x = c) (zip gs ms)))"
        unfolding cnt'_def using "1.IH"(2) [OF notm True] nonneg [unfolded cnt'_def] by blast
      have at_c: "cnt' c = (if c = g then cnt g - 1 else cnt c)" by (simp add: cnt'_def)
      have unf: "yellow_gray (g # gs) (m # ms) cnt = YELLOW # yellow_gray gs ms cnt'"
        using notm True by (simp add: cnt'_def)
      show ?thesis unfolding unf using ih at_c notm by (cases "c = g") simp_all
    next
      case False
      with 1 notm show ?thesis by (auto simp: GRAY_def GREEN_def YELLOW_def)
    qed
  qed
qed simp_all

lemma two_pass_score_bound:
  "length (filter (\<lambda>(x, f). x = c \<and> (f = GREEN \<or> f = YELLOW)) (zip g (two_pass_score g s)))
     \<le> count_list s c"
proof -
  define cnt where "cnt = counts_after_greens g s (\<lambda>c. int (count_list s c))"
  have "\<forall>c. 0 \<le> cnt c" unfolding cnt_def using counts_after_greens_bounds by blast
  then have a: "int (length (filter (\<lambda>(x, f). x = c \<and> (f = GREEN \<or> f = YELLOW))
                (zip g (yellow_gray g (green_marks g s) cnt))))
      \<le> cnt c + int (length (filter (\<lambda>(x, b). b \<and> x = c) (zip g (green_marks g s))))"
    by (rule yellow_gray_bound)
  have b: "cnt c = int (count_list s c) - int (length (filter (\<lambda>(a, b). a = b \<and> a = c) (zip g s)))"
    unfolding cnt_def by (rule counts_after_greens_eq)
  have eq: "two_pass_score g s = yellow_gray g (green_marks g s) cnt"
    by (simp add: two_pass_score_def cnt_def)
  show ?thesis unfolding eq using a b marks_greens [of c g s] by linarith
qed

lemma green_marks_same: "green_marks g g = replicate (length g) True"
  by (induction g) simp_all

lemma yellow_gray_all_green:
  "yellow_gray g (replicate (length g) True) cnt = replicate (length g) GREEN"
  by (induction g) simp_all

lemma two_pass_score_same: "two_pass_score g g = replicate (length g) GREEN"
  by (simp add: two_pass_score_def green_marks_same yellow_gray_all_green)

lemma length_green_marks: "length (green_marks g s) = min (length g) (length s)"
  by (induction g s rule: green_marks.induct) simp_all

lemma nth_green_marks:
  "i < length g \<Longrightarrow> i < length s \<Longrightarrow> green_marks g s ! i \<longleftrightarrow> g ! i = s ! i"
proof (induction g s arbitrary: i rule: green_marks.induct)
  case (1 g gs x xs)
  then show ?case by (cases i) simp_all
qed simp_all

lemma indexable_pos:
  "indexable_letter c \<Longrightarrow> \<exists>k<26. py_pos 26 (letter_to_int c) = Inr k"
  by (auto simp: indexable_letter_def py_pos_def)

lemma pass_greens_returns:
  assumes "length al = 26" and "\<forall>i\<in>set is. i < length g \<and> i < length s"
    and "\<forall>c\<in>set g. indexable_letter c"
  shows "\<exists>fb' cnt' al'. pass_greens g s is fb cnt al = (Inr (fb', cnt'), al') \<and> length al' = 26"
  using assms
proof (induction "is" arbitrary: fb cnt al)
  case Nil
  then show ?case by simp
next
  case (Cons i "is")
  then have i: "i < length g" "i < length s" by simp_all
  then have "indexable_letter (g ! i)" using Cons.prems(3) by simp
  then obtain k where k: "k < 26" "py_pos 26 (letter_to_int (g ! i)) = Inr k"
    using indexable_pos by blast
  have rest: "\<forall>i\<in>set is. i < length g \<and> i < length s" using Cons.prems(2) by simp
  show ?case
  proof (cases "g ! i = s ! i")
    case True
    define cnt0 where "cnt0 = cnt(g ! i := cnt (g ! i) - 1)"
    have "length (al[k := GREEN]) = 26" using Cons.prems(1) by simp
    from Cons.IH [OF this rest Cons.prems(3), of "fb[i := GREEN]" cnt0]
    obtain fb' cnt' al' where
      r: "pass_greens g s is (fb[i := GREEN]) cnt0 (al[k := GREEN]) = (Inr (fb', cnt'), al')"
        "length al' = 26"
      by blast
    have "pass_greens g s (i # is) fb cnt al
          = pass_greens g s is (fb[i := GREEN]) cnt0 (al[k := GREEN])"
      using i k True Cons.prems(1) by (simp add: py_index_nat py_store_def cnt0_def)
    with r show ?thesis by simp
  next
    case False
    from Cons.IH [OF Cons.prems(1) rest Cons.prems(3), of fb cnt]
    show ?thesis using i False by (simp add: py_index_nat)
  qed
qed

lemma pass_yellows_returns:
  assumes "length al = 26" and "\<forall>i\<in>set is. i < length g"
    and "\<forall>c\<in>set g. indexable_letter c"
  shows "\<exists>fb' cnt' al'. pass_yellows g s is fb cnt al = (Inr (fb', cnt'), al') \<and> length al' = 26"
  using assms
proof (induction "is" arbitrary: fb cnt al)
  case Nil
  then show ?case by simp
next
  case (Cons i "is")
  then have i: "i < length g" by simp
  then have "indexable_letter (g ! i)" using Cons.prems(3) by simp
  then obtain k where k: "k < 26" "py_pos 26 (letter_to_int (g ! i)) = Inr k"
    using indexable_pos by blast
  have rest: "\<forall>i\<in>set is. i < length g" using Cons.prems(2) by simp
  have ih: "\<exists>fb' cnt' al'. pass_yellows g s is fb0 cnt0 al0 = (Inr (fb', cnt'), al') \<and> length al' = 26"
    if "length al0 = 26" for fb0 cnt0 al0
    using Cons.IH [OF that rest Cons.prems(3)] .
  have l1: "length (al[k := YELLOW]) = 26" and l2: "length (al[k := GRAY]) = 26"
    using Cons.prems(1) by simp_all
  define cnt1 where "cnt1 = cnt(g ! i := cnt (g ! i) - 1)"
  have ia: "py_index al (letter_to_int (g ! i)) = Inr (al ! k)"
    "\<And>v. py_store al (letter_to_int (g ! i)) v = Inr (al[k := v])"
    using k Cons.prems(1) by (simp_all add: py_index_def py_store_def)
  have "\<exists>fb0 cnt0 al0. length al0 = 26 \<and>
          pass_yellows g s (i # is) fb cnt al = pass_yellows g s is fb0 cnt0 al0"
  proof (cases "fb ! i = GREEN")
    case True
    then show ?thesis using Cons.prems(1) by auto
  next
    case notgreen: False
    show ?thesis
    proof (cases "g ! i \<in> set s \<and> 0 < cnt (g ! i)")
      case yellow: True
      show ?thesis
      proof (cases "al ! k = GREEN")
        case True
        have "pass_yellows g s (i # is) fb cnt al = pass_yellows g s is (fb[i := YELLOW]) cnt1 al"
          using i k notgreen yellow True Cons.prems(1)
          by (simp add: py_index_nat ia Let_def cnt1_def)
        then show ?thesis using Cons.prems(1) by blast
      next
        case False
        have "pass_yellows g s (i # is) fb cnt al
              = pass_yellows g s is (fb[i := YELLOW]) cnt1 (al[k := YELLOW])"
          using i k notgreen yellow False Cons.prems(1)
          by (simp add: py_index_nat ia Let_def cnt1_def)
        then show ?thesis using l1 by blast
      qed
    next
      case gray: False
      show ?thesis
      proof (cases "al ! k = EMPTY")
        case True
        have "pass_yellows g s (i # is) fb cnt al = pass_yellows g s is fb cnt (al[k := GRAY])"
          using i k notgreen gray True Cons.prems(1)
          by (auto simp: py_index_nat ia Let_def)
        then show ?thesis using l2 by blast
      next
        case False
        have "pass_yellows g s (i # is) fb cnt al = pass_yellows g s is fb cnt al"
          using i k notgreen gray False Cons.prems(1)
          by (auto simp: py_index_nat ia Let_def)
        then show ?thesis using Cons.prems(1) by blast
      qed
    qed
  qed
  then obtain fb0 cnt0 al0 where "length al0 = 26"
    and "pass_yellows g s (i # is) fb cnt al = pass_yellows g s is fb0 cnt0 al0"
    by blast
  with ih [of al0 fb0 cnt0] show ?case by simp
qed

section \<open>The feedback of a step\<close>

lemma passes_scored:
  assumes p1: "pass_greens g sec [0..<n] (replicate n GRAY) (\<lambda>c. int (count_list sec c)) al
                 = (Inr (fb1, cnt1), al1)"
    and p2: "pass_yellows g sec [0..<n] fb1 cnt1 al1 = (Inr (fb2, cnt2), al2)"
    and lg: "length g = n" and ls: "length sec = n"
  shows "fb2 = two_pass_score g sec"
proof -
  define cnt0 where "cnt0 = (\<lambda>c. int (count_list sec c))"
  from pass_greens_scored [OF p1 lg ls]
  have s1: "length fb1 = n" "cnt1 = counts_after_greens g sec cnt0"
    "\<forall>i<n. fb1 ! i = (if g ! i = sec ! i then GREEN else GRAY)"
    by (simp_all add: cnt0_def)
  have c1: "\<forall>c. cnt1 c \<le> int (count_list sec c)"
    unfolding s1(2) cnt0_def using counts_after_greens_bounds by blast
  have gg: "\<forall>i. 0 \<le> i \<and> i < n \<longrightarrow> fb1 ! i = GREEN \<or> fb1 ! i = GRAY"
    using s1(3) by simp
  from pass_yellows_scored [OF p2 lg s1(1) c1 gg]
  have fb2: "fb2 = yellow_gray g (map (\<lambda>f. f = GREEN) fb1) cnt1" by simp
  have marks: "map (\<lambda>f. f = GREEN) fb1 = green_marks g sec"
  proof (rule nth_equalityI)
    show "length (map (\<lambda>f. f = GREEN) fb1) = length (green_marks g sec)"
      using s1(1) lg ls by (simp add: length_green_marks)
  next
    fix i assume "i < length (map (\<lambda>f. f = GREEN) fb1)"
    then have i: "i < n" using s1(1) by simp
    then show "map (\<lambda>f. f = GREEN) fb1 ! i = green_marks g sec ! i"
      using s1 lg ls by (simp add: nth_green_marks GREEN_def GRAY_def)
  qed
  show ?thesis
    by (simp add: fb2 marks s1(2) two_pass_score_def cnt0_def)
qed

text \<open>Whenever a step on words of the right length returns, it has scored the guess.\<close>

lemma step_returned:
  assumes run: "current_guess_count s < max_guesses s"
    and dec: "py_index (word_list s) a = Inr g"
    and lg: "length g = word_length s" and ls: "length (secret_word s) = word_length s"
    and ret: "fst (step s a) = Inr x"
  shows "\<exists>al. length al = length (alphabet_status s) \<and>
    step s a =
      (Inr (get_obs (after_guess s g (two_pass_score g (secret_word s)) al),
            (if g = secret_word s then 1
             else if current_guess_count s + 1 = max_guesses s then - 1 else - 0.1),
            (g = secret_word s \<or> current_guess_count s + 1 = max_guesses s),
            False,
            get_info (after_guess s g (two_pass_score g (secret_word s)) al)),
       after_guess s g (two_pass_score g (secret_word s)) al)"
proof (rule step_cases [of s a])
  assume "max_guesses s \<le> current_guess_count s"
  with run show ?thesis by simp
next
  fix e assume "py_index (word_list s) a = Inl e"
  with dec show ?thesis by simp
next
  fix g' e al
  assume "step s a =
    (Inl e, s\<lparr>current_guess_count := current_guess_count s + 1, alphabet_status := al\<rparr>)"
  with ret show ?thesis by simp
next
  fix g' fb1 cnt1 al1 fb2 cnt2 al2
  assume g': "py_index (word_list s) a = Inr g'"
    and p1: "pass_greens g' (secret_word s) [0..<word_length s] (replicate (word_length s) GRAY)
               (\<lambda>c. int (count_list (secret_word s) c)) (alphabet_status s)
             = (Inr (fb1, cnt1), al1)"
    and p2: "pass_yellows g' (secret_word s) [0..<word_length s] fb1 cnt1 al1
             = (Inr (fb2, cnt2), al2)"
    and st: "step s a =
             (Inr (get_obs (s\<lparr>current_guess_count := current_guess_count s + 1,
                     alphabet_status := al2, last_feedback := fb2,
                     guess_history := guess_history s @ [g'],
                     feedback_history := feedback_history s @ [fb2]\<rparr>),
                   (if g' = secret_word s then 1
                    else if current_guess_count s + 1 = max_guesses s then - 1 else - 0.1),
                   (g' = secret_word s \<or> current_guess_count s + 1 = max_guesses s),
                   False,
                   get_info (s\<lparr>current_guess_count := current_guess_count s + 1,
                     alphabet_status := al2, last_feedback := fb2,
                     guess_history := guess_history s @ [g'],
                     feedback_history := feedback_history s @ [fb2]\<rparr>)),
              s\<lparr>current_guess_count := current_guess_count s + 1,
                     alphabet_status := al2, last_feedback := fb2,
                     guess_history := guess_history s @ [g'],
                     feedback_history := feedback_history s @ [fb2]\<rparr>)"
  from g' dec have gg: "g' = g" by simp
  from passes_scored [OF p1 [unfolded gg] p2 [unfolded gg] lg ls]
  have fb2: "fb2 = two_pass_score g (secret_word s)" .
  have "statuses_promoted (alphabet_status s) al1"
    using pass_greens_promoted [of "alphabet_status s" g' "secret_word s" "[0..<word_length s]"
        "replicate (word_length s) GRAY" "\<lambda>c. int (count_list (secret_word s) c)"] p1
    by simp
  moreover have "statuses_promoted al1 al2"
    using pass_yellows_promoted [of al1 g' "secret_word s" "[0..<word_length s]" fb1 cnt1] p2
    by simp
  ultimately have "length al2 = length (alphabet_status s)"
    by (simp add: statuses_promoted_def)
  with st show ?thesis
    unfolding gg fb2 after_guess_def by blast
qed

lemma step_returns:
  assumes ok: "episode_ok s" and run: "current_guess_count s < max_guesses s"
    and a: "0 \<le> a" "a < int (length (word_list s))"
  shows "\<exists>x. fst (step s a) = Inr x"
proof -
  define g where "g = word_list s ! nat a"
  define n where "n = word_length s"
  define sec where "sec = secret_word s"
  define cnt0 where "cnt0 = (\<lambda>c. int (count_list sec c))"
  from a have gin: "g \<in> set (word_list s)" by (simp add: g_def)
  from ok gin have lg: "length g = n" and gl: "\<forall>c\<in>set g. indexable_letter c"
    by (auto simp: episode_ok_def list_all_iff n_def)
  from ok have ls: "length sec = n" and al26: "length (alphabet_status s) = 26"
    by (auto simp: episode_ok_def list_all_iff n_def sec_def)
  have dec: "py_index (word_list s) a = Inr g"
    using a by (simp add: py_index_in_range g_def)
  have idx: "\<forall>i\<in>set [0..<n]. i < length g \<and> i < length sec" using lg ls by simp
  from pass_greens_returns [OF al26 idx gl, of "replicate n GRAY" cnt0]
  obtain fb1 cnt1 al1 where
    p1: "pass_greens g sec [0..<n] (replicate n GRAY) cnt0 (alphabet_status s)
          = (Inr (fb1, cnt1), al1)" and al1: "length al1 = 26"
    by blast
  have idx2: "\<forall>i\<in>set [0..<n]. i < length g" using lg by simp
  from pass_yellows_returns [OF al1 idx2 gl, of sec fb1 cnt1]
  obtain fb2 cnt2 al2 where
    p2: "pass_yellows g sec [0..<n] fb1 cnt1 al1 = (Inr (fb2, cnt2), al2)"
    by blast
  show ?thesis
    using run dec p1 p2
    by (auto simp: step_def Let_def n_def sec_def cnt0_def)
qed

lemma episode_ok_step: "episode_ok s \<Longrightarrow> episode_ok (snd (step s a))"
  using step_frame [of s a] step_promoted [of s a]
  by (simp add: episode_ok_def statuses_promoted_def)

lemma episode_ok_steps: "episode_ok s \<Longrightarrow> episode_ok (exec s (map Step as))"
  by (induction as arbitrary: s) (simp_all add: episode_ok_step)

lemma length_yellow_gray: "length (yellow_gray g m cnt) = min (length g) (length m)"
proof (induction g arbitrary: m cnt)
  case Nil
  show ?case by simp
next
  case (Cons x g)
  show ?case by (cases m) (simp_all add: Cons.IH)
qed

lemma length_two_pass_score:
  "length g = length s \<Longrightarrow> length (two_pass_score g s) = length g"
  by (simp add: two_pass_score_def length_green_marks length_yellow_gray)


text \<open>
  C1. In a state with guesses left whose secret word and decoded guess have
  \<open>word_length\<close> letters, for every action in \<open>[0, num_words)\<close>: whenever
  \<^verbatim>\<open>step\<close> returns, the feedback of the observation it returns is the two-pass scoring
  of the decoded guess against the secret word (\<open>two_pass_score\<close>: greens first, each
  taking one from its letter's count, which starts at the letter's number of occurrences
  in the secret; then, left to right, yellow and one off the count while the count is
  positive, gray otherwise). It has one value for each of the \<open>word_length\<close> positions,
  and for every letter \<open>c\<close> the positions of the guess that carry \<open>c\<close> and are green
  or yellow number at most the occurrences of \<open>c\<close> in the secret. And \<^verbatim>\<open>step\<close> does
  return in every state of an episode (\<open>episode_ok\<close>).
\<close>

theorem step_feedback_two_pass:
  assumes "current_guess_count s < max_guesses s"
    and "0 \<le> a" and "a < int (num_words s)"
    and "length (word_list s ! nat a) = word_length s"
    and "length (secret_word s) = word_length s"
  shows "(\<forall>obs r t tr inf.
            fst (step s a) = Inr (obs, r, t, tr, inf) \<longrightarrow>
              obs_last_feedback obs = two_pass_score (word_list s ! nat a) (secret_word s) \<and>
              length (obs_last_feedback obs) = word_length s \<and>
              (\<forall>c. length (filter (\<lambda>(x, f). x = c \<and> (f = GREEN \<or> f = YELLOW))
                            (zip (word_list s ! nat a) (obs_last_feedback obs)))
                   \<le> count_list (secret_word s) c)) \<and>
         (episode_ok s \<longrightarrow> (\<exists>obs r t tr inf. fst (step s a) = Inr (obs, r, t, tr, inf)))"
proof (intro conjI allI impI)
  define g where "g = word_list s ! nat a"
  have dec: "py_index (word_list s) a = Inr g"
    using assms(2,3) by (simp add: py_index_in_range g_def num_words_def)
  have lg: "length g = word_length s" using assms(4) by (simp add: g_def)
  fix obs r t tr inf
  assume ret: "fst (step s a) = Inr (obs, r, t, tr, inf)"
  from step_returned [OF assms(1) dec lg assms(5) ret]
  obtain al where "step s a =
      (Inr (get_obs (after_guess s g (two_pass_score g (secret_word s)) al),
            (if g = secret_word s then 1
             else if current_guess_count s + 1 = max_guesses s then - 1 else - 0.1),
            (g = secret_word s \<or> current_guess_count s + 1 = max_guesses s),
            False,
            get_info (after_guess s g (two_pass_score g (secret_word s)) al)),
       after_guess s g (two_pass_score g (secret_word s)) al)"
    by blast
  with ret have "obs = get_obs (after_guess s g (two_pass_score g (secret_word s)) al)"
    by simp
  then have fb: "obs_last_feedback obs = two_pass_score g (secret_word s)"
    by (simp add: get_obs_def after_guess_def)
  then show "obs_last_feedback obs = two_pass_score (word_list s ! nat a) (secret_word s)"
    by (simp add: g_def)
  show "length (obs_last_feedback obs) = word_length s"
    using lg assms(5) by (simp add: fb length_two_pass_score)
  show "length (filter (\<lambda>(x, f). x = c \<and> (f = GREEN \<or> f = YELLOW))
           (zip (word_list s ! nat a) (obs_last_feedback obs)))
        \<le> count_list (secret_word s) c" for c
    unfolding fb g_def [symmetric] by (rule two_pass_score_bound)
next
  assume "episode_ok s"
  from step_returns [OF this assms(1,2)] assms(3)
  show "\<exists>obs r t tr inf. fst (step s a) = Inr (obs, r, t, tr, inf)"
    by (auto simp: num_words_def)
qed

lemma example_env_ok: "episode_ok example_env"
  by (simp add: episode_ok_def example_env_def indexable_letter_def letter_to_int_def)

lemma two_pass_score_example:
  "two_pass_score ''lolly'' ''allow'' = [YELLOW, YELLOW, GREEN, GRAY, GRAY]"
  by (simp add: two_pass_score_def)

theorem step_feedback_two_pass_witness:
  "episode_ok example_env \<and> current_guess_count example_env < max_guesses example_env \<and>
   (1::int) < int (num_words example_env) \<and>
   length (word_list example_env ! nat 1) = word_length example_env \<and>
   length (secret_word example_env) = word_length example_env \<and>
   two_pass_score ''lolly'' ''allow'' = [YELLOW, YELLOW, GREEN, GRAY, GRAY] \<and>
   (\<exists>obs r t tr inf.
       fst (step example_env 1) = Inr (obs, r, t, tr, inf) \<and>
       obs_last_feedback obs = two_pass_score ''lolly'' ''allow'' \<and>
       length (filter (\<lambda>(x, f). x = CHR ''l'' \<and> (f = GREEN \<or> f = YELLOW))
                 (zip ''lolly'' (obs_last_feedback obs)))
         \<le> count_list ''allow'' CHR ''l'')"
proof -
  have h: "current_guess_count example_env < max_guesses example_env"
    "(0::int) \<le> 1" "(1::int) < int (num_words example_env)"
    "length (word_list example_env ! nat 1) = word_length example_env"
    "length (secret_word example_env) = word_length example_env"
    by (simp_all add: example_env_def num_words_def)
  have w: "word_list example_env ! nat 1 = ''lolly''" "secret_word example_env = ''allow''"
    by (simp_all add: example_env_def)
  note t = step_feedback_two_pass [OF h, unfolded w]
  from t example_env_ok obtain obs r t' tr inf where
    ret: "fst (step example_env 1) = Inr (obs, r, t', tr, inf)"
    by blast
  with t have "obs_last_feedback obs = two_pass_score ''lolly'' ''allow'' \<and>
       length (filter (\<lambda>(x, f). x = CHR ''l'' \<and> (f = GREEN \<or> f = YELLOW))
                 (zip ''lolly'' (obs_last_feedback obs)))
         \<le> count_list ''allow'' CHR ''l''"
    by blast
  with ret example_env_ok h two_pass_score_example show ?thesis by blast
qed

section \<open>Reward and termination\<close>

text \<open>What a step that returns with guesses left reports besides the observation.\<close>

lemma step_returned_reward:
  assumes run: "current_guess_count s < max_guesses s"
    and dec: "py_index (word_list s) a = Inr g"
    and ret: "fst (step s a) = Inr (obs, r, t, tr, nfo)"
  shows "r = (if g = secret_word s then 1
              else if current_guess_count s + 1 = max_guesses s then - 1 else - 0.1) \<and>
         t = (g = secret_word s \<or> current_guess_count s + 1 = max_guesses s) \<and>
         \<not> tr \<and>
         guesses_remaining obs = max_guesses s - (current_guess_count s + 1) \<and>
         guesses_made nfo = current_guess_count s + 1"
proof (rule step_cases [of s a])
  assume "max_guesses s \<le> current_guess_count s"
  with run show ?thesis by simp
next
  fix e assume "py_index (word_list s) a = Inl e"
  with dec show ?thesis by simp
next
  fix g' e al
  assume "step s a =
    (Inl e, s\<lparr>current_guess_count := current_guess_count s + 1, alphabet_status := al\<rparr>)"
  with ret show ?thesis by simp
next
  fix g' fb1 cnt1 al1 fb2 cnt2 al2
  assume g': "py_index (word_list s) a = Inr g'"
    and st: "step s a =
             (Inr (get_obs (s\<lparr>current_guess_count := current_guess_count s + 1,
                     alphabet_status := al2, last_feedback := fb2,
                     guess_history := guess_history s @ [g'],
                     feedback_history := feedback_history s @ [fb2]\<rparr>),
                   (if g' = secret_word s then 1
                    else if current_guess_count s + 1 = max_guesses s then - 1 else - 0.1),
                   (g' = secret_word s \<or> current_guess_count s + 1 = max_guesses s),
                   False,
                   get_info (s\<lparr>current_guess_count := current_guess_count s + 1,
                     alphabet_status := al2, last_feedback := fb2,
                     guess_history := guess_history s @ [g'],
                     feedback_history := feedback_history s @ [fb2]\<rparr>)),
              s\<lparr>current_guess_count := current_guess_count s + 1,
                     alphabet_status := al2, last_feedback := fb2,
                     guess_history := guess_history s @ [g'],
                     feedback_history := feedback_history s @ [fb2]\<rparr>)"
  from g' dec have "g' = g" by simp
  with st ret show ?thesis by (auto simp: get_obs_def get_info_def)
qed

text \<open>
  C5. In a state with guesses left, when the decoded guess is the secret word (of
  \<open>word_length\<close> letters): whenever \<^verbatim>\<open>step\<close> returns, the feedback is \<open>GREEN\<close> at
  every position, the reward is 1, terminated is true and truncated false; and in every
  state of an episode (\<open>episode_ok\<close>) \<^verbatim>\<open>step\<close> does return, with these values.
\<close>

theorem step_correct_guess:
  assumes "current_guess_count s < max_guesses s"
    and "0 \<le> a" and "a < int (num_words s)"
    and "word_list s ! nat a = secret_word s"
    and "length (secret_word s) = word_length s"
  shows "(\<forall>obs r t tr inf.
            fst (step s a) = Inr (obs, r, t, tr, inf) \<longrightarrow>
              obs_last_feedback obs = replicate (word_length s) GREEN \<and> r = 1 \<and> t \<and> \<not> tr) \<and>
         (episode_ok s \<longrightarrow>
            (\<exists>obs inf. fst (step s a) = Inr (obs, 1, True, False, inf) \<and>
                 obs_last_feedback obs = replicate (word_length s) GREEN))"
proof -
  have dec: "py_index (word_list s) a = Inr (secret_word s)"
    using assms(2,3,4) by (simp add: py_index_in_range num_words_def)
  have part: "obs_last_feedback obs = replicate (word_length s) GREEN \<and> r = 1 \<and> t \<and> \<not> tr"
    if ret: "fst (step s a) = Inr (obs, r, t, tr, inf)" for obs r t tr inf
  proof -
    from step_returned [OF assms(1) dec assms(5) assms(5) ret]
    obtain al where "step s a =
      (Inr (get_obs (after_guess s (secret_word s)
                       (two_pass_score (secret_word s) (secret_word s)) al),
            1, True, False,
            get_info (after_guess s (secret_word s)
                       (two_pass_score (secret_word s) (secret_word s)) al)),
       after_guess s (secret_word s) (two_pass_score (secret_word s) (secret_word s)) al)"
      by auto
    with ret assms(5) show ?thesis
      by (auto simp: get_obs_def after_guess_def two_pass_score_same)
  qed
  have "\<exists>obs inf. fst (step s a) = Inr (obs, 1, True, False, inf) \<and>
           obs_last_feedback obs = replicate (word_length s) GREEN"
    if "episode_ok s"
  proof -
    from step_returns [OF that assms(1,2)] assms(3)
    obtain x where "fst (step s a) = Inr x" by (auto simp: num_words_def)
    moreover obtain obs r t tr inf where "x = (obs, r, t, tr, inf)" by (cases x)
    ultimately have ret: "fst (step s a) = Inr (obs, r, t, tr, inf)" by simp
    from part [OF ret] ret show ?thesis by auto
  qed
  with part show ?thesis by blast
qed

theorem step_correct_guess_witness:
  "episode_ok example_env \<and> current_guess_count example_env < max_guesses example_env \<and>
   (0::int) < int (num_words example_env) \<and>
   word_list example_env ! nat 0 = secret_word example_env \<and>
   length (secret_word example_env) = word_length example_env \<and>
   (\<exists>obs inf. fst (step example_env 0) = Inr (obs, 1, True, False, inf) \<and>
        obs_last_feedback obs = replicate 5 GREEN)"
proof -
  have h: "current_guess_count example_env < max_guesses example_env"
    "(0::int) \<le> 0" "(0::int) < int (num_words example_env)"
    "word_list example_env ! nat 0 = secret_word example_env"
    "length (secret_word example_env) = word_length example_env"
    by (simp_all add: example_env_def num_words_def)
  have "word_length example_env = 5" by (simp add: example_env_def)
  with step_correct_guess [OF h] example_env_ok h show ?thesis by simp
qed

text \<open>
  C6. In a state with guesses left, when the decoded guess is not the secret word:
  whenever \<^verbatim>\<open>step\<close> returns, the reward is \<open>-1\<close> and terminated is true if this guess
  brings the count to \<open>max_guesses\<close>, the reward is \<open>-0.1\<close> and terminated is false
  otherwise, truncated is false in both cases, and the observation reports the guesses
  that remain after this one; and in every state of an episode (\<open>episode_ok\<close>)
  \<^verbatim>\<open>step\<close> does return.
\<close>

theorem step_wrong_guess:
  assumes "current_guess_count s < max_guesses s"
    and "0 \<le> a" and "a < int (num_words s)"
    and "word_list s ! nat a \<noteq> secret_word s"
  shows "(\<forall>obs r t tr inf.
            fst (step s a) = Inr (obs, r, t, tr, inf) \<longrightarrow>
              r = (if current_guess_count s + 1 = max_guesses s then - 1.0 else - 0.1) \<and>
              t = (current_guess_count s + 1 = max_guesses s) \<and> \<not> tr \<and>
              guesses_remaining obs = max_guesses s - (current_guess_count s + 1)) \<and>
         (episode_ok s \<longrightarrow>
            (\<exists>obs inf.
               fst (step s a) =
                 Inr (obs,
                      (if current_guess_count s + 1 = max_guesses s then - 1.0 else - 0.1),
                      (current_guess_count s + 1 = max_guesses s), False, inf)))"
proof -
  have dec: "py_index (word_list s) a = Inr (word_list s ! nat a)"
    using assms(2,3) by (simp add: py_index_in_range num_words_def)
  have part: "r = (if current_guess_count s + 1 = max_guesses s then - 1.0 else - 0.1) \<and>
              t = (current_guess_count s + 1 = max_guesses s) \<and> \<not> tr \<and>
              guesses_remaining obs = max_guesses s - (current_guess_count s + 1)"
    if ret: "fst (step s a) = Inr (obs, r, t, tr, inf)" for obs r t tr inf
    using step_returned_reward [OF assms(1) dec ret] assms(4) by simp
  have "\<exists>obs inf.
               fst (step s a) =
                 Inr (obs,
                      (if current_guess_count s + 1 = max_guesses s then - 1.0 else - 0.1),
                      (current_guess_count s + 1 = max_guesses s), False, inf)"
    if "episode_ok s"
  proof -
    from step_returns [OF that assms(1,2)] assms(3)
    obtain x where "fst (step s a) = Inr x" by (auto simp: num_words_def)
    moreover obtain obs r t tr inf where "x = (obs, r, t, tr, inf)" by (cases x)
    ultimately have ret: "fst (step s a) = Inr (obs, r, t, tr, inf)" by simp
    from part [OF ret] ret show ?thesis by auto
  qed
  with part show ?thesis by blast
qed

lemma last_guess_env_facts:
  "episode_ok last_guess_env" "current_guess_count last_guess_env = 5"
  "max_guesses last_guess_env = 6" "word_list last_guess_env = [''allow'', ''lolly'']"
  "secret_word last_guess_env = ''allow''"
proof -
  show "episode_ok last_guess_env"
    unfolding last_guess_env_def by (rule episode_ok_steps [OF example_env_ok])
  show "current_guess_count last_guess_env = 5"
    by (simp add: last_guess_env_def eval_simps)
  show "max_guesses last_guess_env = 6"
    by (simp add: last_guess_env_def eval_simps)
  show "word_list last_guess_env = [''allow'', ''lolly'']"
    by (simp add: last_guess_env_def eval_simps)
  show "secret_word last_guess_env = ''allow''"
    by (simp add: last_guess_env_def eval_simps)
qed

theorem step_wrong_guess_witness:
  "episode_ok example_env \<and> current_guess_count example_env < max_guesses example_env \<and>
   (1::int) < int (num_words example_env) \<and>
   word_list example_env ! nat 1 \<noteq> secret_word example_env \<and>
   (\<exists>obs inf. fst (step example_env 1) = Inr (obs, - 0.1, False, False, inf)) \<and>
   episode_ok last_guess_env \<and> current_guess_count last_guess_env < max_guesses last_guess_env \<and>
   (1::int) < int (num_words last_guess_env) \<and>
   word_list last_guess_env ! nat 1 \<noteq> secret_word last_guess_env \<and>
   (\<exists>obs inf. fst (step last_guess_env 1) = Inr (obs, - 1.0, True, False, inf))"
proof -
  have h: "current_guess_count example_env < max_guesses example_env"
    "(0::int) \<le> 1" "(1::int) < int (num_words example_env)"
    "word_list example_env ! nat 1 \<noteq> secret_word example_env"
    by (simp_all add: example_env_def num_words_def)
  have c: "current_guess_count example_env + 1 \<noteq> max_guesses example_env"
    by (simp add: example_env_def)
  from step_wrong_guess [OF h] c example_env_ok
  have a: "\<exists>obs inf. fst (step example_env 1) = Inr (obs, - 0.1, False, False, inf)"
    by auto
  have k: "current_guess_count last_guess_env < max_guesses last_guess_env"
    "(0::int) \<le> 1" "(1::int) < int (num_words last_guess_env)"
    "word_list last_guess_env ! nat 1 \<noteq> secret_word last_guess_env"
    by (simp_all add: last_guess_env_facts num_words_def)
  from step_wrong_guess [OF k] last_guess_env_facts(1)
  have b: "\<exists>obs inf. fst (step last_guess_env 1) = Inr (obs, - 1.0, True, False, inf)"
    by (simp add: last_guess_env_facts)
  from example_env_ok h a last_guess_env_facts(1) k b show ?thesis by blast
qed

section \<open>Words with other characters\<close>

text \<open>
  The hypothesis \<open>episode_ok\<close> asks that the letters of the words index the alphabet
  cells. It cannot be dropped from the statements that \<^verbatim>\<open>step\<close> returns: on a word
  with an apostrophe, \<^verbatim>\<open>self.alphabet_status[ord(letter) - ord('a')]\<close> raises
  \<^verbatim>\<open>IndexError\<close> in the first loop, after the guess has been counted.
\<close>

lemma step_raises_on_other_characters:
  "init [''don't''] 5 6 = Inr (apostrophe_env\<lparr>secret_word := []\<rparr>) \<and>
   snd (reset (apostrophe_env\<lparr>secret_word := []\<rparr>) ''don't'') = apostrophe_env \<and>
   \<not> episode_ok apostrophe_env \<and>
   fst (step apostrophe_env 0) = Inl IndexError \<and>
   current_guess_count (snd (step apostrophe_env 0)) = 1"
proof -
  have "init [''don't''] 5 6 = Inr (apostrophe_env\<lparr>secret_word := []\<rparr>)"
    by code_simp
  moreover have "snd (reset (apostrophe_env\<lparr>secret_word := []\<rparr>) ''don't'') = apostrophe_env"
    by (simp add: reset_def apostrophe_env_def Let_def)
  moreover have "\<not> episode_ok apostrophe_env"
    by (simp add: episode_ok_def apostrophe_env_def indexable_letter_def letter_to_int_def)
  moreover have "fst (step apostrophe_env 0) = Inl IndexError \<and>
      current_guess_count (snd (step apostrophe_env 0)) = 1"
    by (simp add: apostrophe_env_def step_def py_index_def py_pos_def py_store_def
        letter_to_int_def GREEN_def GRAY_def Let_def upt_conv_Cons)
  ultimately show ?thesis by blast
qed

end
